theory Spec2Isabelle
  imports Main "HOL-Library.Sublist"
begin

section \<open>Strings: the parts of packages strings and strconv that nextdate.go calls\<close>

text \<open>
  A Go string is a sequence of bytes; it is modelled as a \<open>string\<close> (a list of 8-bit
  characters). \<open>isDigit\<close> is the test for an ASCII decimal digit that \<open>\d\<close> of
  package regexp, \<open>strconv.Atoi\<close> and \<open>time.Parse\<close> all use.
\<close>

definition isDigit :: "char \<Rightarrow> bool" where
  "isDigit c = (48 \<le> (of_char c :: nat) \<and> (of_char c :: nat) \<le> 57)"

definition digitVal :: "char \<Rightarrow> int" where
  "digitVal c = int (of_char c) - 48"

definition decimal :: "string \<Rightarrow> int" where
  "decimal ds = foldl (\<lambda>a c. 10 * a + digitVal c) 0 ds"

text \<open>
  \<open>strings.TrimSpace\<close> removes every leading and trailing Unicode white space rune.
  \<open>spaces\<close> lists the UTF-8 encodings of the runes \<open>unicode.IsSpace\<close> accepts:
  the six ASCII ones, U+0085, U+00A0, U+1680, U+2000 to U+200A, U+2028, U+2029, U+202F,
  U+205F and U+3000. A byte sequence that is not valid UTF-8 decodes to the error rune,
  which is no white space, so trimming stops there.
\<close>

definition spaces :: "string list" where
  "spaces =
    [[CHR 0x09], [CHR 0x0A], [CHR 0x0B], [CHR 0x0C], [CHR 0x0D], [CHR 0x20],
     [CHR 0xC2, CHR 0x85], [CHR 0xC2, CHR 0xA0],
     [CHR 0xE1, CHR 0x9A, CHR 0x80],
     [CHR 0xE2, CHR 0x80, CHR 0x80], [CHR 0xE2, CHR 0x80, CHR 0x81],
     [CHR 0xE2, CHR 0x80, CHR 0x82], [CHR 0xE2, CHR 0x80, CHR 0x83],
     [CHR 0xE2, CHR 0x80, CHR 0x84], [CHR 0xE2, CHR 0x80, CHR 0x85],
     [CHR 0xE2, CHR 0x80, CHR 0x86], [CHR 0xE2, CHR 0x80, CHR 0x87],
     [CHR 0xE2, CHR 0x80, CHR 0x88], [CHR 0xE2, CHR 0x80, CHR 0x89],
     [CHR 0xE2, CHR 0x80, CHR 0x8A],
     [CHR 0xE2, CHR 0x80, CHR 0xA8], [CHR 0xE2, CHR 0x80, CHR 0xA9],
     [CHR 0xE2, CHR 0x80, CHR 0xAF],
     [CHR 0xE2, CHR 0x81, CHR 0x9F],
     [CHR 0xE3, CHR 0x80, CHR 0x80]]"

definition leadingSpace :: "string \<Rightarrow> string option" where
  "leadingSpace s = find (\<lambda>w. prefix w s) spaces"

definition trailingSpace :: "string \<Rightarrow> string option" where
  "trailingSpace s = find (\<lambda>w. suffix w s) spaces"

lemma spaces_nonempty: "w \<in> set spaces \<Longrightarrow> w \<noteq> []"
  by (auto simp: spaces_def)

lemma find_SomeD: "find P xs = Some x \<Longrightarrow> x \<in> set xs \<and> P x"
  by (induction xs) (auto split: if_splits)

lemma leadingSpace_Some: "leadingSpace s = Some w \<Longrightarrow> w \<noteq> [] \<and> prefix w s"
  unfolding leadingSpace_def by (auto dest!: find_SomeD dest: spaces_nonempty)

lemma trailingSpace_Some: "trailingSpace s = Some w \<Longrightarrow> w \<noteq> [] \<and> suffix w s"
  unfolding trailingSpace_def by (auto dest!: find_SomeD dest: spaces_nonempty)

function trimLeft :: "string \<Rightarrow> string" where
  "trimLeft s =
     (case leadingSpace s of None \<Rightarrow> s | Some w \<Rightarrow> trimLeft (drop (length w) s))"
  by pat_completeness auto
termination
proof (relation "measure length")
  show "wf (measure length)" by simp
next
  fix s w assume "leadingSpace s = Some w"
  then have "w \<noteq> []" "prefix w s" by (auto dest: leadingSpace_Some)
  then have "length (drop (length w) s) < length s"
    by (cases s) (auto simp: prefix_def)
  then show "(drop (length w) s, s) \<in> measure length" by simp
qed

function trimRight :: "string \<Rightarrow> string" where
  "trimRight s =
     (case trailingSpace s of None \<Rightarrow> s
      | Some w \<Rightarrow> trimRight (take (length s - length w) s))"
  by pat_completeness auto
termination
proof (relation "measure length")
  show "wf (measure length)" by simp
next
  fix s w assume "trailingSpace s = Some w"
  then have "w \<noteq> []" "suffix w s" by (auto dest: trailingSpace_Some)
  then have "length (take (length s - length w) s) < length s"
    by (cases s) (auto simp: suffix_def)
  then show "(take (length s - length w) s, s) \<in> measure length" by simp
qed

definition TrimSpace :: "string \<Rightarrow> string" where
  "TrimSpace s = trimRight (trimLeft s)"

text \<open>
  \<open>strings.Split(s, sep)\<close> for a separator of one byte, the only use in nextdate.go
  (\<open>" "\<close> and \<open>","\<close>). The result is never empty: the empty string splits into
  one empty piece.
\<close>

fun Split :: "string \<Rightarrow> char \<Rightarrow> string list" where
  "Split [] sep = [[]]"
| "Split (c # cs) sep =
     (if c = sep then [] # Split cs sep
      else (c # hd (Split cs sep)) # tl (Split cs sep))"

text \<open>
  \<open>strconv.Atoi\<close>: an optional sign, then one or more decimal digits; a syntax error
  otherwise, and a range error outside the 64-bit integers. \<open>None\<close> is the error.
\<close>

definition Atoi :: "string \<Rightarrow> int option" where
  "Atoi s =
     (let neg = (s \<noteq> [] \<and> hd s = CHR ''-'');
          ds = (if s \<noteq> [] \<and> (hd s = CHR ''-'' \<or> hd s = CHR ''+'') then tl s else s)
      in if ds = [] \<or> \<not> list_all isDigit ds then None
         else let v = (if neg then - decimal ds else decimal ds)
              in if v < - (2 ^ 63) \<or> 2 ^ 63 - 1 < v then None else Some v)"

section \<open>Regular expressions (package regexp)\<close>

text \<open>
  The four patterns of nextdate.go use literals, the class \<open>\d\<close> (ASCII digits),
  concatenation, \<open>?\<close>, \<open>*\<close> and the bounded repetitions \<open>{1,2}\<close> and
  \<open>{1,3}\<close> between the anchors \<open>^\<close> and \<open>$\<close>, which without flags match only at
  the two ends of the text. \<open>MatchString\<close> is therefore a match of the whole string,
  decided here by Brzozowski derivatives.
\<close>

datatype rexp = Nothing | Eps | Lit char | Dig | Or rexp rexp | Cat rexp rexp | Rep rexp

fun nullable :: "rexp \<Rightarrow> bool" where
  "nullable Nothing = False"
| "nullable Eps = True"
| "nullable (Lit c) = False"
| "nullable Dig = False"
| "nullable (Or r s) = (nullable r \<or> nullable s)"
| "nullable (Cat r s) = (nullable r \<and> nullable s)"
| "nullable (Rep r) = True"

fun deriv :: "char \<Rightarrow> rexp \<Rightarrow> rexp" where
  "deriv c Nothing = Nothing"
| "deriv c Eps = Nothing"
| "deriv c (Lit d) = (if c = d then Eps else Nothing)"
| "deriv c Dig = (if isDigit c then Eps else Nothing)"
| "deriv c (Or r s) = Or (deriv c r) (deriv c s)"
| "deriv c (Cat r s) =
     (if nullable r then Or (Cat (deriv c r) s) (deriv c s) else Cat (deriv c r) s)"
| "deriv c (Rep r) = Cat (deriv c r) (Rep r)"

fun MatchString :: "rexp \<Rightarrow> string \<Rightarrow> bool" where
  "MatchString r [] = nullable r"
| "MatchString r (c # cs) = MatchString (deriv c r) cs"

definition Opt :: "rexp \<Rightarrow> rexp" where
  "Opt r = Or Eps r"

text \<open>\<open>\d{1,2}\<close> and \<open>\d{1,3}\<close>.\<close>

definition dig12 :: rexp where
  "dig12 = Cat Dig (Opt Dig)"

definition dig13 :: rexp where
  "dig13 = Cat Dig (Cat (Opt Dig) (Opt Dig))"

text \<open>\<open>-?\d{1,2}\<close>\<close>

definition sdig12 :: rexp where
  "sdig12 = Cat (Opt (Lit CHR ''-'')) dig12"

text \<open>\<open>^d \d{1,3}$\<close>\<close>

definition reDay :: rexp where
  "reDay = Cat (Lit CHR ''d'') (Cat (Lit CHR '' '') dig13)"

text \<open>\<open>^y$\<close>\<close>

definition reYear :: rexp where
  "reYear = Lit CHR ''y''"

text \<open>\<open>^w \d(,[\d])*$\<close>\<close>

definition reWeek :: rexp where
  "reWeek = Cat (Lit CHR ''w'') (Cat (Lit CHR '' '')
              (Cat Dig (Rep (Cat (Lit CHR '','') Dig))))"

text \<open>\<open>^m -?\d{1,2}(,-?\d{1,2})*( \d{1,2}(,\d{1,2})*)?$\<close>\<close>

definition reMonth :: rexp where
  "reMonth = Cat (Lit CHR ''m'') (Cat (Lit CHR '' '')
               (Cat sdig12 (Cat (Rep (Cat (Lit CHR '','') sdig12))
                 (Opt (Cat (Lit CHR '' '')
                   (Cat dig12 (Rep (Cat (Lit CHR '','') dig12))))))))"

section \<open>Calendar (package time)\<close>

text \<open>
  Package time is not part of the repository; it is modelled by the proleptic Gregorian
  calendar it implements. A \<open>Time\<close> is the number of its civil day, counted in the
  value's own location from 1 January of year 1 (day 0, a Monday), and the nanoseconds
  elapsed since that day's midnight. Every value nextdate.go compares or formats is a
  UTC midnight (\<open>time.Parse\<close> of a layout without a zone yields UTC, \<open>midnight\<close>
  builds a UTC value), so comparing day numbers is comparing instants.
\<close>

record Time =
  absDay :: int
  dayNsec :: int

definition isLeap :: "int \<Rightarrow> bool" where
  "isLeap year = (year mod 4 = 0 \<and> (year mod 100 \<noteq> 0 \<or> year mod 400 = 0))"

text \<open>\<open>daysBefore m\<close>: the days of a non-leap year before month \<open>m + 1\<close>.\<close>

definition daysBefore :: "int \<Rightarrow> int" where
  "daysBefore m = [0, 31, 59, 90, 120, 151, 181, 212, 243, 273, 304, 334, 365] ! nat m"

definition daysIn :: "int \<Rightarrow> int \<Rightarrow> int" where
  "daysIn m year =
     (if m = 2 \<and> isLeap year then 29 else daysBefore m - daysBefore (m - 1))"

text \<open>The days from 1 January of year 1 to 1 January of \<open>year\<close>.\<close>

definition daysSinceEpoch :: "int \<Rightarrow> int" where
  "daysSinceEpoch year =
     (let y = year - 1 in 365 * y + y div 4 - y div 100 + y div 400)"

text \<open>
  \<open>time.Date\<close> accepts a month and a day outside their usual ranges and normalises
  them: the month overflows into the year, the day is counted from the first of the
  month. \<open>dateToAbs\<close> is its day number.
\<close>

definition dateToAbs :: "int \<Rightarrow> int \<Rightarrow> int \<Rightarrow> int" where
  "dateToAbs year month day =
     (let m = month - 1;
          year' = year + m div 12;
          m' = m mod 12
      in daysSinceEpoch year' + daysBefore m'
         + (if isLeap year' \<and> 3 \<le> m' + 1 then 1 else 0)
         + (day - 1))"

definition Date :: "int \<Rightarrow> int \<Rightarrow> int \<Rightarrow> Time" where
  "Date year month day = \<lparr>absDay = dateToAbs year month day, dayNsec = 0\<rparr>"

text \<open>
  The inverse: the year by cutting off cycles of 400, 100, 4 and 1 years, then the
  month and the day from the day of the year.
\<close>

definition yearDay :: "int \<Rightarrow> int \<times> int" where
  "yearDay d =
     (let n400 = d div 146097;
          d1 = d mod 146097;
          n100 = d1 div 36524;
          n100' = n100 - n100 div 4;
          d2 = d1 - 36524 * n100';
          n4 = d2 div 1461;
          d3 = d2 mod 1461;
          n1 = d3 div 365;
          n1' = n1 - n1 div 4
      in (400 * n400 + 100 * n100' + 4 * n4 + n1' + 1, d3 - 365 * n1'))"

definition monthDay :: "bool \<Rightarrow> int \<Rightarrow> int \<times> int" where
  "monthDay leap yday =
     (if leap \<and> yday = 31 + 29 - 1 then (2, 29)
      else let day = (if leap \<and> yday > 31 + 29 - 1 then yday - 1 else yday);
               month = day div 31;
               end = daysBefore (month + 1)
           in if day \<ge> end then (month + 2, day - end + 1)
              else (month + 1, day - daysBefore month + 1))"

definition absDate :: "int \<Rightarrow> int \<times> int \<times> int" where
  "absDate d =
     (let (year, yday) = yearDay d;
          (month, day) = monthDay (isLeap year) yday
      in (year, month, day))"

definition Year :: "Time \<Rightarrow> int" where
  "Year t = fst (absDate (absDay t))"

definition Month :: "Time \<Rightarrow> int" where
  "Month t = fst (snd (absDate (absDay t)))"

definition Day :: "Time \<Rightarrow> int" where
  "Day t = snd (snd (absDate (absDay t)))"

text \<open>\<open>Weekday\<close>: Sunday is 0, Monday 1, ..., Saturday 6.\<close>

definition Weekday :: "Time \<Rightarrow> int" where
  "Weekday t = (absDay t + 1) mod 7"

definition AddDate :: "int \<Rightarrow> int \<Rightarrow> int \<Rightarrow> Time \<Rightarrow> Time" where
  "AddDate years months days t =
     \<lparr>absDay = dateToAbs (Year t + years) (Month t + months) (Day t + days),
      dayNsec = dayNsec t\<rparr>"

definition Before :: "Time \<Rightarrow> Time \<Rightarrow> bool" where
  "Before t u = (absDay t < absDay u \<or> (absDay t = absDay u \<and> dayNsec t < dayNsec u))"

text \<open>
  \<open>time.Parse\<close> with the layout \<open>DateLayoutDB = "20060102"\<close>: exactly four digits
  of year, two of month and two of day, with nothing after them; the month in 1..12 and
  the day within the month. \<open>None\<close> is the parse error.
\<close>

definition Parse :: "string \<Rightarrow> Time option" where
  "Parse s =
     (if length s = 8 \<and> list_all isDigit s then
        let year = decimal (take 4 s);
            month = decimal (take 2 (drop 4 s));
            day = decimal (drop 6 s)
        in if month \<le> 0 \<or> 12 < month then None
           else if day < 1 \<or> daysIn month year < day then None
           else Some (Date year month day)
      else None)"

text \<open>
  \<open>Time.Format\<close> with the same layout: the year padded with zeros to four digits
  (more when it needs them, and a minus sign when negative), the month and the day to
  two.
\<close>

fun digits :: "nat \<Rightarrow> string" where
  "digits n =
     (if n < 10 then [char_of (48 + n)] else digits (n div 10) @ [char_of (48 + n mod 10)])"

definition appendInt :: "int \<Rightarrow> nat \<Rightarrow> string" where
  "appendInt x width =
     (let ds = digits (nat \<bar>x\<bar>)
      in (if x < 0 then [CHR ''-''] else []) @ replicate (width - length ds) CHR ''0'' @ ds)"

definition Format :: "Time \<Rightarrow> string" where
  "Format t = appendInt (Year t) 4 @ appendInt (Month t) 2 @ appendInt (Day t) 2"

section \<open>internal/api/nextdate.go\<close>

text \<open>
  The errors of \<open>NextDate\<close> are \<open>fmt.Errorf\<close> values told apart by their message.
  The first five are the kinds the specification names. \<open>NumberSyntax\<close> stands for the
  four messages that wrap an error of \<open>strconv.Atoi\<close>, and \<open>IndexPanic\<close> for the
  run-time panic of an index out of range (\<open>parts[1]\<close>, \<open>parts[2]\<close>,
  \<open>weekDaysInt[0]\<close>).
\<close>

datatype error =
    EmptyRule
  | InvalidDateSyntax
  | UnsupportedFormat
  | InvalidNumericField
  | NoMatchingDay
  | NumberSyntax
  | IndexPanic

definition maxDaysInterval :: int where
  "maxDaysInterval = 400"

definition sundayNum :: int where
  "sundayNum = 7"

definition expectedPartsWithMonths :: nat where
  "expectedPartsWithMonths = 3"

definition lastDayOfMonth :: int where
  "lastDayOfMonth = - 1"

definition beforeLastDayOfMonth :: int where
  "beforeLastDayOfMonth = - 2"

definition allMonths :: "int list" where
  "allMonths = [1, 2, 3, 4, 5, 6, 7, 8, 9, 10, 11, 12]"

definition afterNow :: "Time \<Rightarrow> Time \<Rightarrow> bool" where
  "afterNow now date = Before now date"

text \<open>\<open>slices.Sort\<close>, then \<open>slices.Compact\<close>, which drops adjacent repetitions.\<close>

definition sortUniqueInts :: "int list \<Rightarrow> int list" where
  "sortUniqueInts xs = remdups_adj (sort xs)"

definition computeBaseTime :: "Time \<Rightarrow> Time \<Rightarrow> Time" where
  "computeBaseTime now startDate = (if afterNow now startDate then startDate else now)"

definition computeLastMonthDay :: "int \<Rightarrow> int \<Rightarrow> int" where
  "computeLastMonthDay year month = Day (Date year (month + 1) 0)"

definition resolveDays :: "int list \<Rightarrow> int \<Rightarrow> int \<Rightarrow> int list" where
  "resolveDays monthDaysInt y m =
     sortUniqueInts (map (\<lambda>d. if d < 0 then Day (Date y (m + 1) (d + 1)) else d) monthDaysInt)"

definition midnight :: "Time \<Rightarrow> Time" where
  "midnight t = Date (Year t) (Month t) (Day t)"

text \<open>
  The loops of \<open>nextDaily\<close> and \<open>nextYearly\<close> have no bound of their own, so they
  are partial functions: \<open>None\<close> is a loop that never leaves. The result of the whole
  call is an option for the same reason.
\<close>

partial_function (option) dailyLoop :: "Time \<Rightarrow> int \<Rightarrow> Time \<Rightarrow> Time option" where
  "dailyLoop now days startDate =
     (if afterNow now (AddDate 0 0 days startDate) then Some (AddDate 0 0 days startDate)
      else dailyLoop now days (AddDate 0 0 days startDate))"

declare dailyLoop.simps [code]

definition nextDaily :: "Time \<Rightarrow> Time \<Rightarrow> string \<Rightarrow> (error + string) option" where
  "nextDaily now startDate repeat =
     (case Split repeat CHR '' '' of
        _ # p1 # _ \<Rightarrow>
          (case Atoi p1 of
             None \<Rightarrow> Some (Inl NumberSyntax)
           | Some days \<Rightarrow>
               if days \<le> 0 \<or> days > maxDaysInterval then Some (Inl InvalidNumericField)
               else map_option (\<lambda>t. Inr (Format t)) (dailyLoop now days startDate))
      | _ \<Rightarrow> Some (Inl IndexPanic))"

partial_function (option) yearlyLoop :: "Time \<Rightarrow> Time \<Rightarrow> Time option" where
  "yearlyLoop now startDate =
     (if afterNow now (AddDate 1 0 0 startDate) then Some (AddDate 1 0 0 startDate)
      else yearlyLoop now (AddDate 1 0 0 startDate))"

declare yearlyLoop.simps [code]

definition nextYearly :: "Time \<Rightarrow> Time \<Rightarrow> (error + string) option" where
  "nextYearly now startDate = map_option (\<lambda>t. Inr (Format t)) (yearlyLoop now startDate)"

text \<open>The loop of \<open>nextWeekly\<close> that converts and checks the weekdays.\<close>

fun weekDaysLoop :: "string list \<Rightarrow> int list \<Rightarrow> error + int list" where
  "weekDaysLoop [] weekDaysInt = Inr weekDaysInt"
| "weekDaysLoop (wd # rest) weekDaysInt =
     (case Atoi wd of
        None \<Rightarrow> Inl NumberSyntax
      | Some wdNum \<Rightarrow>
          if wdNum \<le> 0 \<or> wdNum > 7 then Inl InvalidNumericField
          else weekDaysLoop rest (weekDaysInt @ [wdNum]))"

definition nextWeekly :: "Time \<Rightarrow> Time \<Rightarrow> string \<Rightarrow> error + string" where
  "nextWeekly now startDate repeat =
     (case Split repeat CHR '' '' of
        _ # p1 # _ \<Rightarrow>
          (case weekDaysLoop (Split p1 CHR '','') [] of
             Inl e \<Rightarrow> Inl e
           | Inr ws \<Rightarrow>
               let weekDaysInt = sortUniqueInts ws;
                   baseTime = computeBaseTime now startDate;
                   currentWeekDay =
                     (if Weekday baseTime = 0 then sundayNum else Weekday baseTime);
                   daysToAdd =
                     (case find (\<lambda>wd. currentWeekDay < wd) weekDaysInt of
                        Some wd \<Rightarrow> wd - currentWeekDay
                      | None \<Rightarrow> 0)
               in if daysToAdd = 0 then
                    (case weekDaysInt of
                       [] \<Rightarrow> Inl IndexPanic
                     | w0 # _ \<Rightarrow>
                         Inr (Format (AddDate 0 0 (7 - currentWeekDay + w0) baseTime)))
                  else Inr (Format (AddDate 0 0 daysToAdd baseTime)))
      | _ \<Rightarrow> Inl IndexPanic)"

text \<open>The two conversion loops of \<open>nextMonthly\<close>.\<close>

fun monthDaysLoop :: "string list \<Rightarrow> int list \<Rightarrow> error + int list" where
  "monthDaysLoop [] monthDaysInt = Inr monthDaysInt"
| "monthDaysLoop (md # rest) monthDaysInt =
     (case Atoi md of
        None \<Rightarrow> Inl NumberSyntax
      | Some mdNum \<Rightarrow>
          if (mdNum \<noteq> lastDayOfMonth \<and> mdNum \<noteq> beforeLastDayOfMonth)
             \<and> (mdNum \<le> 0 \<or> mdNum > 31)
          then Inl InvalidNumericField
          else monthDaysLoop rest (monthDaysInt @ [mdNum]))"

fun monthsLoop :: "string list \<Rightarrow> int list \<Rightarrow> error + int list" where
  "monthsLoop [] monthsInt = Inr monthsInt"
| "monthsLoop (m # rest) monthsInt =
     (case Atoi m of
        None \<Rightarrow> Inl NumberSyntax
      | Some mNum \<Rightarrow>
          if mNum \<le> 0 \<or> mNum > 12 then Inl InvalidNumericField
          else monthsLoop rest (monthsInt @ [mNum]))"

text \<open>
  The search loops of \<open>nextMonthly\<close>. Each returns \<open>Some\<close> date when the Go loop
  returns from the function, and \<open>None\<close> when the loop ends (or breaks) without a
  result. \<open>thisYearDays\<close> is the inner loop of the first search, over the resolved days
  of month \<open>m\<close> of the current year; \<open>nextYearDays\<close> the inner loop of the second.
\<close>

fun thisYearDays :: "Time \<Rightarrow> int \<Rightarrow> int list \<Rightarrow> Time option" where
  "thisYearDays baseTime m [] = None"
| "thisYearDays baseTime m (md # rest) =
     (if md > computeLastMonthDay (Year baseTime) m then None
      else if Month baseTime = m then
        (if md \<le> Day baseTime then thisYearDays baseTime m rest
         else Some (AddDate 0 0 (md - Day baseTime) baseTime))
      else Some (Date (Year baseTime) m md))"

fun thisYearMonths :: "Time \<Rightarrow> int list \<Rightarrow> int list \<Rightarrow> Time option" where
  "thisYearMonths baseTime monthDaysInt [] = None"
| "thisYearMonths baseTime monthDaysInt (m # rest) =
     (if Month baseTime \<le> m then
        (case thisYearDays baseTime m (resolveDays monthDaysInt (Year baseTime) m) of
           Some t \<Rightarrow> Some t
         | None \<Rightarrow> thisYearMonths baseTime monthDaysInt rest)
      else thisYearMonths baseTime monthDaysInt rest)"

fun nextYearDays :: "int \<Rightarrow> int \<Rightarrow> int list \<Rightarrow> Time option" where
  "nextYearDays nextYear m [] = None"
| "nextYearDays nextYear m (md # rest) =
     (if md > computeLastMonthDay nextYear m then None
      else Some (Date nextYear m md))"

fun nextYearMonths :: "int \<Rightarrow> int list \<Rightarrow> int list \<Rightarrow> Time option" where
  "nextYearMonths nextYear monthDaysInt [] = None"
| "nextYearMonths nextYear monthDaysInt (m # rest) =
     (case nextYearDays nextYear m (resolveDays monthDaysInt nextYear m) of
        Some t \<Rightarrow> Some t
      | None \<Rightarrow> nextYearMonths nextYear monthDaysInt rest)"

definition monthlySearch :: "Time \<Rightarrow> int list \<Rightarrow> int list \<Rightarrow> error + string" where
  "monthlySearch baseTime monthDaysInt monthsInt =
     (case thisYearMonths baseTime monthDaysInt monthsInt of
        Some t \<Rightarrow> Inr (Format t)
      | None \<Rightarrow>
          (case nextYearMonths (Year baseTime + 1) monthDaysInt monthsInt of
             Some t \<Rightarrow> Inr (Format t)
           | None \<Rightarrow> Inl NoMatchingDay))"

definition nextMonthly :: "Time \<Rightarrow> Time \<Rightarrow> string \<Rightarrow> error + string" where
  "nextMonthly now startDate repeat =
     (let parts = Split repeat CHR '' '' in
      case parts of
        _ # p1 # ps \<Rightarrow>
          (case monthDaysLoop (Split p1 CHR '','') [] of
             Inl e \<Rightarrow> Inl e
           | Inr ds \<Rightarrow>
               (case (if length parts = expectedPartsWithMonths
                      then (case monthsLoop (Split (hd ps) CHR '','') [] of
                              Inl e \<Rightarrow> Inl e
                            | Inr ms \<Rightarrow> Inr (sortUniqueInts ms))
                      else Inr []) of
                  Inl e \<Rightarrow> Inl e
                | Inr ms \<Rightarrow>
                    monthlySearch (computeBaseTime now startDate) (sortUniqueInts ds)
                      (if length ms = 0 then allMonths else ms)))
      | _ \<Rightarrow> Inl IndexPanic)"

definition NextDate :: "Time \<Rightarrow> string \<Rightarrow> string \<Rightarrow> (error + string) option" where
  "NextDate now dStart repeat =
     (if TrimSpace repeat = [] then Some (Inl EmptyRule)
      else case Parse (TrimSpace dStart) of
        None \<Rightarrow> Some (Inl InvalidDateSyntax)
      | Some startDate \<Rightarrow>
          if MatchString reDay (TrimSpace repeat) then
            nextDaily (midnight now) startDate (TrimSpace repeat)
          else if MatchString reYear (TrimSpace repeat) then
            nextYearly (midnight now) startDate
          else if MatchString reWeek (TrimSpace repeat) then
            Some (nextWeekly (midnight now) startDate (TrimSpace repeat))
          else if MatchString reMonth (TrimSpace repeat) then
            Some (nextMonthly (midnight now) startDate (TrimSpace repeat))
          else Some (Inl UnsupportedFormat))"

section \<open>The languages of the four patterns\<close>

text \<open>
  \<open>lang r\<close> is the set of strings a pattern denotes; \<open>MatchString\<close> decides
  membership in it. \<open>digitString n\<close> holds of the strings of one to \<open>n\<close> digits, and
  \<open>commas\<close> joins strings with commas.
\<close>

definition conc :: "string set \<Rightarrow> string set \<Rightarrow> string set" where
  "conc A B = {u @ v | u v. u \<in> A \<and> v \<in> B}"

inductive_set star :: "string set \<Rightarrow> string set" for A :: "string set" where
  star_Nil: "[] \<in> star A"
| star_app: "u \<in> A \<Longrightarrow> v \<in> star A \<Longrightarrow> u @ v \<in> star A"

fun lang :: "rexp \<Rightarrow> string set" where
  "lang Nothing = {}"
| "lang Eps = {[]}"
| "lang (Lit c) = {[c]}"
| "lang Dig = {[c] | c. isDigit c}"
| "lang (Or r s) = lang r \<union> lang s"
| "lang (Cat r s) = conc (lang r) (lang s)"
| "lang (Rep r) = star (lang r)"

lemma nullable_iff: "nullable r \<longleftrightarrow> [] \<in> lang r"
  by (induction r) (auto simp: conc_def intro: star.intros)

lemma star_Cons:
  "c # w \<in> star A \<longleftrightarrow> (\<exists>u v. w = u @ v \<and> c # u \<in> A \<and> v \<in> star A)"
proof
  assume "c # w \<in> star A"
  then show "\<exists>u v. w = u @ v \<and> c # u \<in> A \<and> v \<in> star A"
  proof (induction "c # w" rule: star.induct)
    case (star_app u v)
    then show ?case by (cases u) auto
  qed
next
  assume "\<exists>u v. w = u @ v \<and> c # u \<in> A \<and> v \<in> star A"
  then obtain u v where "w = u @ v" "c # u \<in> A" "v \<in> star A" by blast
  then show "c # w \<in> star A" using star_app [of "c # u" A v] by simp
qed

lemma conc_Cons:
  "c # w \<in> conc A B \<longleftrightarrow>
     (\<exists>u v. w = u @ v \<and> c # u \<in> A \<and> v \<in> B) \<or> ([] \<in> A \<and> c # w \<in> B)"
  unfolding conc_def by (auto simp: Cons_eq_append_conv) 

lemma deriv_lang: "w \<in> lang (deriv c r) \<longleftrightarrow> c # w \<in> lang r"
proof (induction r arbitrary: w)
  case (Cat r s)
  then show ?case by (auto simp: conc_Cons nullable_iff) (auto simp: conc_def)
next
  case (Rep r)
  then show ?case by (auto simp: star_Cons conc_def)
qed (auto)

lemma MatchString_iff: "MatchString r s \<longleftrightarrow> s \<in> lang r"
  by (induction s arbitrary: r) (simp_all add: nullable_iff deriv_lang)


definition digitString :: "nat \<Rightarrow> string \<Rightarrow> bool" where
  "digitString n ds = (1 \<le> length ds \<and> length ds \<le> n \<and> list_all isDigit ds)"

lemma short_list_cases:
  "1 \<le> length xs \<and> length xs \<le> 2 \<longleftrightarrow> (\<exists>a. xs = [a]) \<or> (\<exists>a b. xs = [a, b])"
  "1 \<le> length xs \<and> length xs \<le> 3 \<longleftrightarrow>
     (\<exists>a. xs = [a]) \<or> (\<exists>a b. xs = [a, b]) \<or> (\<exists>a b c. xs = [a, b, c])"
proof -
  show "1 \<le> length xs \<and> length xs \<le> 2 \<longleftrightarrow> (\<exists>a. xs = [a]) \<or> (\<exists>a b. xs = [a, b])"
    by (cases xs; simp; cases "tl xs"; auto)
  show "1 \<le> length xs \<and> length xs \<le> 3 \<longleftrightarrow>
     (\<exists>a. xs = [a]) \<or> (\<exists>a b. xs = [a, b]) \<or> (\<exists>a b c. xs = [a, b, c])"
    by (cases xs; simp; cases "tl xs"; simp; cases "tl (tl xs)"; auto)
qed

lemma concI: "u \<in> A \<Longrightarrow> v \<in> B \<Longrightarrow> u @ v \<in> conc A B"
  by (auto simp: conc_def)

lemma lang_dig12: "w \<in> lang dig12 \<longleftrightarrow> digitString 2 w"
proof
  assume "w \<in> lang dig12"
  then show "digitString 2 w"
    by (auto simp: dig12_def Opt_def conc_def digitString_def)
next
  assume "digitString 2 w"
  then have d: "list_all isDigit w" and "(\<exists>a. w = [a]) \<or> (\<exists>a b. w = [a, b])"
    using short_list_cases(1) [of w] by (simp_all add: digitString_def)
  then consider a where "w = [a] @ []" | a b where "w = [a] @ [b]" by auto
  then show "w \<in> lang dig12"
  proof cases
    case 1
    with d show ?thesis unfolding dig12_def Opt_def lang.simps 1 by (intro concI) auto
  next
    case 2
    with d show ?thesis unfolding dig12_def Opt_def lang.simps 2 by (intro concI) auto
  qed
qed

lemma lang_dig13: "w \<in> lang dig13 \<longleftrightarrow> digitString 3 w"
proof
  assume "w \<in> lang dig13"
  then show "digitString 3 w"
    by (auto simp: dig13_def Opt_def conc_def digitString_def)
next
  assume "digitString 3 w"
  then have d: "list_all isDigit w"
    and "(\<exists>a. w = [a]) \<or> (\<exists>a b. w = [a, b]) \<or> (\<exists>a b c. w = [a, b, c])"
    using short_list_cases(2) [of w] by (simp_all add: digitString_def)
  then consider a where "w = [a] @ [] @ []" | a b where "w = [a] @ [b] @ []"
    | a b c where "w = [a] @ [b] @ [c]" by auto
  then show "w \<in> lang dig13"
  proof cases
    case 1
    with d show ?thesis unfolding dig13_def Opt_def lang.simps 1 by (intro concI) auto
  next
    case 2
    with d show ?thesis unfolding dig13_def Opt_def lang.simps 2 by (intro concI) auto
  next
    case 3
    with d show ?thesis unfolding dig13_def Opt_def lang.simps 3 by (intro concI) auto
  qed
qed

lemma lang_sdig12:
  "w \<in> lang sdig12 \<longleftrightarrow> digitString 2 w \<or> (\<exists>ds. w = CHR ''-'' # ds \<and> digitString 2 ds)"
proof
  assume "w \<in> lang sdig12"
  then show "digitString 2 w \<or> (\<exists>ds. w = CHR ''-'' # ds \<and> digitString 2 ds)"
    using lang_dig12 by (auto simp: sdig12_def Opt_def conc_def)
next
  assume "digitString 2 w \<or> (\<exists>ds. w = CHR ''-'' # ds \<and> digitString 2 ds)"
  then consider "w = [] @ w" "w \<in> lang dig12"
    | ds where "w = [CHR ''-''] @ ds" "ds \<in> lang dig12"
    using lang_dig12 by auto
  then show "w \<in> lang sdig12"
  proof cases
    case 1
    have "[] @ w \<in> lang sdig12"
      unfolding sdig12_def Opt_def lang.simps using 1(2) by (intro concI) auto
    then show ?thesis by simp
  next
    case 2
    show ?thesis
      unfolding sdig12_def Opt_def lang.simps 2(1) using 2(2) by (intro concI) auto
  qed
qed

fun commas :: "string list \<Rightarrow> string" where
  "commas [] = []"
| "commas [x] = x"
| "commas (x # y # ys) = x @ CHR '','' # commas (y # ys)"

lemma commas_Cons: "xs \<noteq> [] \<Longrightarrow> commas (x # xs) = x @ CHR '','' # commas xs"
  by (cases xs) simp_all

lemma star_commas:
  "w \<in> star (conc {[CHR '','']} A) \<longleftrightarrow>
     (\<exists>xs. set xs \<subseteq> A \<and> w = concat (map (\<lambda>x. CHR '','' # x) xs))"
proof
  assume "w \<in> star (conc {[CHR '','']} A)"
  then show "\<exists>xs. set xs \<subseteq> A \<and> w = concat (map (\<lambda>x. CHR '','' # x) xs)"
  proof (induction rule: star.induct)
    case star_Nil
    show ?case by (intro exI [of _ "[]"]) simp
  next
    case (star_app u v)
    then obtain xs x where "set xs \<subseteq> A" "v = concat (map (\<lambda>x. CHR '','' # x) xs)"
      "x \<in> A" "u = CHR '','' # x" by (auto simp: conc_def)
    then show ?case by (intro exI [of _ "x # xs"]) simp
  qed
next
  assume "\<exists>xs. set xs \<subseteq> A \<and> w = concat (map (\<lambda>x. CHR '','' # x) xs)"
  then obtain xs where "set xs \<subseteq> A" "w = concat (map (\<lambda>x. CHR '','' # x) xs)" by blast
  then show "w \<in> star (conc {[CHR '','']} A)"
  proof (induction xs arbitrary: w)
    case Nil
    then show ?case by (simp add: star_Nil)
  next
    case (Cons x xs)
    have "(CHR '','' # x) @ concat (map (\<lambda>x. CHR '','' # x) xs) \<in> star (conc {[CHR '','']} A)"
      using Cons by (intro star_app) (auto simp: conc_def)
    with Cons(3) show ?case by simp
  qed
qed

lemma commas_concat: "commas (x # xs) = x @ concat (map (\<lambda>x. CHR '','' # x) xs)"
  by (induction xs arbitrary: x) (simp_all add: commas_Cons)

lemma lang_comma_list:
  "w \<in> lang (Cat r (Rep (Cat (Lit CHR '','') r))) \<longleftrightarrow>
     (\<exists>xs. xs \<noteq> [] \<and> set xs \<subseteq> lang r \<and> w = commas xs)"
proof
  assume "w \<in> lang (Cat r (Rep (Cat (Lit CHR '','') r)))"
  then obtain x xs where "x \<in> lang r" "set xs \<subseteq> lang r"
    "w = x @ concat (map (\<lambda>x. CHR '','' # x) xs)"
    by (auto simp: star_commas conc_def [of "lang r"])
  then show "\<exists>xs. xs \<noteq> [] \<and> set xs \<subseteq> lang r \<and> w = commas xs"
    by (intro exI [of _ "x # xs"]) (simp add: commas_concat)
next
  assume "\<exists>xs. xs \<noteq> [] \<and> set xs \<subseteq> lang r \<and> w = commas xs"
  then obtain x xs where "x \<in> lang r" "set xs \<subseteq> lang r" "w = commas (x # xs)"
    by (metis list.exhaust insert_subset list.simps(15))
  then show "w \<in> lang (Cat r (Rep (Cat (Lit CHR '','') r)))"
    by (auto simp: star_commas conc_def [of "lang r"] commas_concat)
qed

lemma Split_no_sep: "sep \<notin> set s \<Longrightarrow> Split s sep = [s]"
  by (induction s) auto

lemma Split_append:
  "sep \<notin> set s \<Longrightarrow> Split (s @ sep # t) sep = s # Split t sep"
  by (induction s) auto

lemma Split_commas:
  assumes "xs \<noteq> []" "\<forall>x\<in>set xs. CHR '','' \<notin> set x"
  shows "Split (commas xs) CHR '','' = xs"
  using assms
proof (induction xs rule: commas.induct)
  case (3 x y ys)
  then show ?case by (simp add: Split_append)
qed (simp_all add: Split_no_sep)


lemma conc_assoc: "conc A (conc B C) = conc (conc A B) C"
  unfolding conc_def by (auto; metis append.assoc)

lemma conc_single: "w \<in> conc {u} B \<longleftrightarrow> (\<exists>v. w = u @ v \<and> v \<in> B)"
  by (auto simp: conc_def)

lemma lang_Dig: "w \<in> lang Dig \<longleftrightarrow> digitString 1 w"
  by (cases w) (auto simp: digitString_def)

lemma MatchString_reDay:
  "MatchString reDay s \<longleftrightarrow> (\<exists>ds. s = ''d '' @ ds \<and> digitString 3 ds)"
  unfolding MatchString_iff reDay_def lang.simps conc_single
  by (auto simp: lang_dig13)

lemma MatchString_reYear: "MatchString reYear s \<longleftrightarrow> s = ''y''"
  by (simp add: MatchString_iff reYear_def)

lemma MatchString_reWeek:
  "MatchString reWeek s \<longleftrightarrow>
     (\<exists>xs. xs \<noteq> [] \<and> (\<forall>x\<in>set xs. digitString 1 x) \<and> s = ''w '' @ commas xs)"
proof -
  have "MatchString reWeek s \<longleftrightarrow>
      (\<exists>v. s = ''w '' @ v \<and> v \<in> lang (Cat Dig (Rep (Cat (Lit CHR '','') Dig))))"
    unfolding MatchString_iff reWeek_def lang.simps(6) [of "Lit _"] lang.simps(3) conc_single
    by auto
  also have "\<dots> \<longleftrightarrow>
      (\<exists>xs. xs \<noteq> [] \<and> (\<forall>x\<in>set xs. digitString 1 x) \<and> s = ''w '' @ commas xs)"
    unfolding lang_comma_list subset_iff lang_Dig by blast
  finally show ?thesis .
qed

lemma MatchString_reMonth:
  "MatchString reMonth s \<longleftrightarrow>
     (\<exists>ds ms. ds \<noteq> [] \<and> (\<forall>x\<in>set ds. x \<in> lang sdig12) \<and> (\<forall>x\<in>set ms. digitString 2 x)
        \<and> s = ''m '' @ commas ds @ (if ms = [] then [] else CHR '' '' # commas ms))"
proof -
  let ?D = "Cat sdig12 (Rep (Cat (Lit CHR '','') sdig12))"
  let ?M = "Cat dig12 (Rep (Cat (Lit CHR '','') dig12))"
  define B where "B = lang (Opt (Cat (Lit CHR '' '') ?M))"
  define D where "D = lang ?D"
  have B: "v \<in> B \<longleftrightarrow> v = [] \<or> (\<exists>w. v = CHR '' '' # w \<and> w \<in> lang ?M)" for v
    unfolding B_def Opt_def by (auto simp: conc_single)
  have "lang reMonth = conc {[CHR ''m'']} (conc {[CHR '' '']} (conc D B))"
    unfolding D_def B_def by (simp add: reMonth_def conc_assoc)
  then have "MatchString reMonth s \<longleftrightarrow> (\<exists>t. s = ''m '' @ t \<and> t \<in> conc D B)"
    unfolding MatchString_iff by (auto simp: conc_single)
  also have "\<dots> \<longleftrightarrow>
      (\<exists>u v. s = ''m '' @ u @ v \<and> u \<in> lang ?D \<and> (v = [] \<or> (\<exists>w. v = CHR '' '' # w \<and> w \<in> lang ?M)))"
    unfolding conc_def [of D B] B by (auto simp: D_def)
  also have "\<dots> \<longleftrightarrow>
     (\<exists>ds ms. ds \<noteq> [] \<and> (\<forall>x\<in>set ds. x \<in> lang sdig12) \<and> (\<forall>x\<in>set ms. digitString 2 x)
        \<and> s = ''m '' @ commas ds @ (if ms = [] then [] else CHR '' '' # commas ms))"
    (is "?L \<longleftrightarrow> ?R")
  proof
    assume ?L
    then obtain u v where s: "s = ''m '' @ u @ v" and u: "u \<in> lang ?D"
      and v: "v = [] \<or> (\<exists>w. v = CHR '' '' # w \<and> w \<in> lang ?M)" by blast
    from u obtain ds where ds: "ds \<noteq> []" "set ds \<subseteq> lang sdig12" "u = commas ds"
      unfolding lang_comma_list by blast
    from v show ?R
    proof
      assume "v = []"
      with s ds show ?R by (intro exI [of _ ds] exI [of _ "[]"]) auto
    next
      assume "\<exists>w. v = CHR '' '' # w \<and> w \<in> lang ?M"
      then obtain w where w: "v = CHR '' '' # w" "w \<in> lang ?M" by blast
      then obtain ms where ms: "ms \<noteq> []" "set ms \<subseteq> lang dig12" "w = commas ms"
        unfolding lang_comma_list by blast
      with s ds w show ?R
        by (intro exI [of _ ds] exI [of _ ms]) (auto simp: lang_dig12 [symmetric])
    qed
  next
    assume ?R
    then obtain ds ms where ds: "ds \<noteq> []" "\<forall>x\<in>set ds. x \<in> lang sdig12"
      and ms: "\<forall>x\<in>set ms. digitString 2 x"
      and s: "s = ''m '' @ commas ds @ (if ms = [] then [] else CHR '' '' # commas ms)" by blast
    have u: "commas ds \<in> lang ?D" unfolding lang_comma_list using ds by blast
    show ?L
    proof (cases "ms = []")
      case True
      with s u show ?L by (intro exI [of _ "commas ds"] exI [of _ "[]"]) simp
    next
      case False
      then have "commas ms \<in> lang ?M"
        unfolding lang_comma_list using ms by (auto simp: lang_dig12)
      with False s u show ?L
        by (intro exI [of _ "commas ds"] exI [of _ "CHR '' '' # commas ms"]) simp
    qed
  qed
  finally show ?thesis .
qed

section \<open>The calendar functions are inverse to each other\<close>

text \<open>
  \<open>validDate\<close> holds of the dates of the calendar: a month in 1..12 and a day within
  the month. \<open>yearLen\<close> is the length of a year in days, \<open>yearDayOf\<close> the position
  of a date in its year, from 0.
\<close>

definition yearLen :: "int \<Rightarrow> int" where
  "yearLen year = (if isLeap year then 366 else 365)"

definition validDate :: "int \<Rightarrow> int \<Rightarrow> int \<Rightarrow> bool" where
  "validDate y m d = (1 \<le> m \<and> m \<le> 12 \<and> 1 \<le> d \<and> d \<le> daysIn m y)"

definition yearDayOf :: "int \<Rightarrow> int \<Rightarrow> int \<Rightarrow> int" where
  "yearDayOf y m d = daysBefore (m - 1) + (if isLeap y \<and> 3 \<le> m then 1 else 0) + (d - 1)"

lemma daysBefore_simps:
  "daysBefore 0 = 0" "daysBefore 1 = 31" "daysBefore 2 = 59" "daysBefore 3 = 90"
  "daysBefore 4 = 120" "daysBefore 5 = 151" "daysBefore 6 = 181" "daysBefore 7 = 212"
  "daysBefore 8 = 243" "daysBefore 9 = 273" "daysBefore 10 = 304" "daysBefore 11 = 334"
  "daysBefore 12 = 365"
  by (simp_all add: daysBefore_def)

lemma month_cases:
  fixes m :: int
  assumes "1 \<le> m" "m \<le> 12"
  shows "m = 1 \<or> m = 2 \<or> m = 3 \<or> m = 4 \<or> m = 5 \<or> m = 6 \<or> m = 7 \<or> m = 8 \<or> m = 9 \<or> m = 10
         \<or> m = 11 \<or> m = 12"
  using assms by arith

lemma month_estimate:
  assumes "1 \<le> m" "m \<le> 12" "daysBefore (m - 1) \<le> day" "day < daysBefore m"
  shows "day div 31 = m - 2 \<or> day div 31 = m - 1"
  using month_cases [OF assms(1,2)] assms(3,4)
  by (elim disjE; simp add: daysBefore_simps; arith)

lemma month_of_day:
  assumes "1 \<le> m" "m \<le> 12" "daysBefore (m - 1) \<le> day" "day < daysBefore m"
  shows "(if day \<ge> daysBefore (day div 31 + 1)
          then (day div 31 + 2, day - daysBefore (day div 31 + 1) + 1)
          else (day div 31 + 1, day - daysBefore (day div 31) + 1))
         = (m, day - daysBefore (m - 1) + 1)"
  using month_estimate [OF assms] assms(3,4) by (elim disjE) simp_all

lemma exists_month:
  assumes "0 \<le> day" "day < 365"
  shows "\<exists>m. 1 \<le> m \<and> m \<le> 12 \<and> daysBefore (m - 1) \<le> day \<and> day < daysBefore m"
  using assms
  by (intro exI [of _ "if day < 31 then 1 else if day < 59 then 2 else if day < 90 then 3
        else if day < 120 then 4 else if day < 151 then 5 else if day < 181 then 6
        else if day < 212 then 7 else if day < 243 then 8 else if day < 273 then 9
        else if day < 304 then 10 else if day < 334 then 11 else 12"])
     (simp add: daysBefore_simps)


lemma div_step:
  fixes y k :: int
  assumes "0 < k"
  shows "y div k - (y - 1) div k = (if y mod k = 0 then 1 else 0)"
proof (cases "y mod k = 0")
  case True
  from True have "k dvd y" by (simp add: mod_eq_0_iff_dvd)
  then have "k * (y div k) = y" by (rule dvd_mult_div_cancel)
  then have "y - 1 = k * (y div k - 1) + (k - 1)"
    by (simp add: algebra_simps)
  then have "(y - 1) div k = y div k - 1"
    using assms by (intro int_div_pos_eq [where r = "k - 1"]) auto
  with True show ?thesis by simp
next
  case False
  have "0 \<le> y mod k" "y mod k < k" using assms by auto
  with False have r: "0 \<le> y mod k - 1" "y mod k - 1 < k" by auto
  have "y - 1 = k * (y div k) + (y mod k - 1)" by simp
  then have "(y - 1) div k = y div k"
    using r by (intro int_div_pos_eq [where r = "y mod k - 1"]) auto
  with False show ?thesis by simp
qed


lemma daysSinceEpoch_step: "daysSinceEpoch (y + 1) = daysSinceEpoch y + yearLen y"
proof -
  define i4 :: int where "i4 = (if y mod 4 = 0 then 1 else 0)"
  define i100 :: int where "i100 = (if y mod 100 = 0 then 1 else 0)"
  define i400 :: int where "i400 = (if y mod 400 = 0 then 1 else 0)"
  have e4: "y div 4 = (y - 1) div 4 + i4"
    using div_step [of 4 y] by (simp add: i4_def)
  have e100: "y div 100 = (y - 1) div 100 + i100"
    using div_step [of 100 y] by (simp add: i100_def)
  have e400: "y div 400 = (y - 1) div 400 + i400"
    using div_step [of 400 y] by (simp add: i400_def)
  have d1: "y mod 100 = 0 \<Longrightarrow> y mod 4 = 0"
    using mod_mod_cancel [of 4 100 y] by simp
  have d2: "y mod 400 = 0 \<Longrightarrow> y mod 100 = 0"
    using mod_mod_cancel [of 100 400 y] by simp
  have L: "yearLen y = 365 + i4 - i100 + i400"
    unfolding yearLen_def isLeap_def i4_def i100_def i400_def
    using d1 d2 by (cases "y mod 4 = 0"; cases "y mod 100 = 0"; cases "y mod 400 = 0") simp_all
  have "daysSinceEpoch (y + 1) = 365 * y + y div 4 - y div 100 + y div 400"
    by (simp add: daysSinceEpoch_def)
  also have "\<dots> = 365 * y + ((y - 1) div 4 + i4) - ((y - 1) div 100 + i100)
                    + ((y - 1) div 400 + i400)"
    by (simp only: e4 e100 e400)
  also have "\<dots> = daysSinceEpoch y + yearLen y"
    unfolding L daysSinceEpoch_def Let_def by (simp only: algebra_simps)
  finally show ?thesis .
qed

lemma yearLen_pos: "365 \<le> yearLen y" "yearLen y \<le> 366"
  by (simp_all add: yearLen_def)

lemma daysSinceEpoch_mono_aux: "daysSinceEpoch y + yearLen y \<le> daysSinceEpoch (y + 1 + int n)"
proof (induction n)
  case 0
  then show ?case by (simp add: daysSinceEpoch_step)
next
  case (Suc n)
  have "daysSinceEpoch (y + 1 + int (Suc n)) = daysSinceEpoch (y + 1 + int n) + yearLen (y + 1 + int n)"
    using daysSinceEpoch_step [of "y + 1 + int n"] by (simp add: algebra_simps)
  with Suc yearLen_pos(1) [of "y + 1 + int n"] show ?case by linarith
qed

lemma daysSinceEpoch_mono:
  assumes "y < y'"
  shows "daysSinceEpoch y + yearLen y \<le> daysSinceEpoch y'"
proof -
  from assms have "y' = y + 1 + int (nat (y' - y - 1))" by simp
  then show ?thesis using daysSinceEpoch_mono_aux [of y "nat (y' - y - 1)"] by simp
qed

lemma year_unique:
  assumes "daysSinceEpoch y + d = daysSinceEpoch y' + d'"
    and "0 \<le> d" "d < yearLen y" "0 \<le> d'" "d' < yearLen y'"
  shows "y = y' \<and> d = d'"
proof -
  have "\<not> y < y'" using daysSinceEpoch_mono [of y y'] assms by linarith
  moreover have "\<not> y' < y" using daysSinceEpoch_mono [of y' y] assms by linarith
  ultimately have "y = y'" by simp
  with assms(1) show ?thesis by simp
qed


lemma mod_zero_iff:
  fixes x k q r :: int
  assumes "x = k * q + r" "0 \<le> r" "r \<le> k" "0 < k"
  shows "x mod k = 0 \<longleftrightarrow> r = 0 \<or> r = k"
proof (cases "r = k")
  case True
  then have "x = k * (q + 1) + 0" using assms(1) by (simp add: algebra_simps)
  then have "x mod k = 0" using assms(4) by (intro int_mod_pos_eq [where q = "q + 1"]) auto
  with True show ?thesis by simp
next
  case False
  then have "r < k" using assms(3) by simp
  then have "x mod k = r" using assms by (intro int_mod_pos_eq [where q = q]) auto
  with False show ?thesis by simp
qed

lemma daysSinceEpoch_cycles:
  assumes "0 \<le> b" "b \<le> 3" "0 \<le> c" "c \<le> 24" "0 \<le> e" "e \<le> 3"
  shows "daysSinceEpoch (400 * a + 100 * b + 4 * c + e + 1)
         = 146097 * a + 36524 * b + 1461 * c + 365 * e"
proof -
  let ?y = "400 * a + 100 * b + 4 * c + e"
  have 4: "?y div 4 = 100 * a + 25 * b + c"
    using assms by (intro int_div_pos_eq [where r = e]) auto
  have 100: "?y div 100 = 4 * a + b"
    using assms by (intro int_div_pos_eq [where r = "4 * c + e"]) auto
  have 400: "?y div 400 = a"
    using assms by (intro int_div_pos_eq [where r = "100 * b + 4 * c + e"]) auto
  show ?thesis
    unfolding daysSinceEpoch_def Let_def by (simp add: 4 100 400)
qed

lemma isLeap_cycles:
  assumes "0 \<le> b" "b \<le> 3" "0 \<le> c" "c \<le> 24" "0 \<le> e" "e \<le> 3"
  shows "isLeap (400 * a + 100 * b + 4 * c + e + 1) \<longleftrightarrow> e = 3 \<and> (c \<noteq> 24 \<or> b = 3)"
proof -
  let ?y = "400 * a + 100 * b + 4 * c + e + 1"
  have 4: "?y mod 4 = 0 \<longleftrightarrow> e + 1 = 0 \<or> e + 1 = 4"
    using assms by (intro mod_zero_iff [where q = "100 * a + 25 * b + c"]) auto
  have 100: "?y mod 100 = 0 \<longleftrightarrow> 4 * c + e + 1 = 0 \<or> 4 * c + e + 1 = 100"
    using assms by (intro mod_zero_iff [where q = "4 * a + b"]) auto
  have 400: "?y mod 400 = 0 \<longleftrightarrow> 100 * b + 4 * c + e + 1 = 0 \<or> 100 * b + 4 * c + e + 1 = 400"
    using assms by (intro mod_zero_iff [where q = a]) auto
  show ?thesis
    unfolding isLeap_def 4 100 400 using assms by auto
qed

lemma yearDay_correct:
  assumes "yearDay n = (y, yd)"
  shows "0 \<le> yd \<and> yd < yearLen y \<and> daysSinceEpoch y + yd = n"
proof -
  define a where "a = n div 146097"
  define d1 where "d1 = n mod 146097"
  define n100 where "n100 = d1 div 36524"
  define r1 where "r1 = d1 mod 36524"
  define b where "b = n100 - n100 div 4"
  define d2 where "d2 = d1 - 36524 * b"
  define c where "c = d2 div 1461"
  define d3 where "d3 = d2 mod 1461"
  define n1 where "n1 = d3 div 365"
  define r3 where "r3 = d3 mod 365"
  define e where "e = n1 - n1 div 4"
  have y: "y = 400 * a + 100 * b + 4 * c + e + 1" and yd: "yd = d3 - 365 * e"
    using assms
    unfolding yearDay_def Let_def a_def d1_def n100_def b_def d2_def c_def d3_def n1_def e_def
    by simp_all
  have n: "n = 146097 * a + d1" by (simp add: a_def d1_def)
  have d1: "0 \<le> d1" "d1 < 146097" by (simp_all add: d1_def)
  have d1': "d1 = 36524 * n100 + r1" by (simp add: n100_def r1_def)
  have r1: "0 \<le> r1" "r1 < 36524" by (simp_all add: r1_def)
  have n100: "0 \<le> n100" "n100 \<le> 4" using d1 d1' r1 by linarith+
  then have "n100 = 0 \<or> n100 = 1 \<or> n100 = 2 \<or> n100 = 3 \<or> n100 = 4" by linarith
  then have b: "b = (if n100 = 4 then 3 else n100)"
    unfolding b_def by (elim disjE) simp_all
  have b_bounds: "0 \<le> b" "b \<le> 3" using b n100 by (auto split: if_splits)
  have d2: "0 \<le> d2" "d2 \<le> 36524" "b < 3 \<Longrightarrow> d2 < 36524"
    using b d1 d1' r1 n100 unfolding d2_def by (auto split: if_splits)
  have d2': "d2 = 1461 * c + d3" by (simp add: c_def d3_def)
  have d3: "0 \<le> d3" "d3 < 1461" by (simp_all add: d3_def)
  have c_bounds: "0 \<le> c" "c \<le> 24" using d2 d2' d3 by linarith+
  have d3': "d3 = 365 * n1 + r3" by (simp add: n1_def r3_def)
  have r3: "0 \<le> r3" "r3 < 365" by (simp_all add: r3_def)
  have n1: "0 \<le> n1" "n1 \<le> 4" using d3 d3' r3 by linarith+
  then have "n1 = 0 \<or> n1 = 1 \<or> n1 = 2 \<or> n1 = 3 \<or> n1 = 4" by linarith
  then have e: "e = (if n1 = 4 then 3 else n1)"
    unfolding e_def by (elim disjE) simp_all
  have e_bounds: "0 \<le> e" "e \<le> 3" using e n1 by (auto split: if_splits)
  have leap: "isLeap y \<longleftrightarrow> e = 3 \<and> (c \<noteq> 24 \<or> b = 3)"
    unfolding y using b_bounds c_bounds e_bounds by (rule isLeap_cycles)
  have dse: "daysSinceEpoch y = 146097 * a + 36524 * b + 1461 * c + 365 * e"
    unfolding y using b_bounds c_bounds e_bounds by (rule daysSinceEpoch_cycles)
  have 1: "0 \<le> yd" using yd e d3' r3 n1 by (auto split: if_splits)
  have 2: "yd < yearLen y"
  proof (cases "n1 = 4")
    case True
    then have e3: "e = 3" using e by simp
    have "c \<noteq> 24 \<or> b = 3"
    proof (cases "b < 3")
      case True
      from d2(3) [OF True] \<open>n1 = 4\<close> d3' r3 d2' show ?thesis by linarith
    next
      case False
      then show ?thesis using b_bounds by simp
    qed
    then have "isLeap y" using leap e3 by simp
    then show ?thesis using yd e3 d3 by (simp add: yearLen_def)
  next
    case False
    then have "yd = r3" using yd e d3' by simp
    then show ?thesis using r3 yearLen_pos(1) [of y] by linarith
  qed
  have 3: "daysSinceEpoch y + yd = n"
    unfolding dse yd n d2' [symmetric] using d2' d2_def by simp
  from 1 2 3 show ?thesis by simp
qed

lemma yearDay_unique:
  assumes "0 \<le> yd" "yd < yearLen y"
  shows "yearDay (daysSinceEpoch y + yd) = (y, yd)"
proof -
  obtain y' yd' where eq: "yearDay (daysSinceEpoch y + yd) = (y', yd')" by force
  from yearDay_correct [OF eq] year_unique [of y' yd' y yd] assms
  show ?thesis unfolding eq by simp
qed


lemma dateToAbs_month:
  assumes "1 \<le> m" "m \<le> 12"
  shows "dateToAbs y m d = daysSinceEpoch y + yearDayOf y m d"
proof -
  have "(m - 1) div 12 = 0" "(m - 1) mod 12 = m - 1" using assms by simp_all
  then show ?thesis by (simp add: dateToAbs_def yearDayOf_def Let_def)
qed

lemma yearDayOf_bounds:
  assumes "validDate y m d"
  shows "0 \<le> yearDayOf y m d" "yearDayOf y m d < yearLen y"
proof -
  from assms have m: "1 \<le> m" "m \<le> 12" and d: "1 \<le> d" "d \<le> daysIn m y"
    by (simp_all add: validDate_def)
  from month_cases [OF m] d show "0 \<le> yearDayOf y m d"
    by (elim disjE) (simp_all add: yearDayOf_def daysBefore_simps)
  from month_cases [OF m] d show "yearDayOf y m d < yearLen y"
    by (elim disjE)
       (simp_all add: yearDayOf_def daysIn_def yearLen_def daysBefore_simps split: if_splits)
qed

lemma monthDay_yearDayOf:
  assumes "validDate y m d"
  shows "monthDay (isLeap y) (yearDayOf y m d) = (m, d)"
proof -
  from assms have m: "1 \<le> m" "m \<le> 12" and d: "1 \<le> d" "d \<le> daysIn m y"
    by (simp_all add: validDate_def)
  show ?thesis
  proof (cases "isLeap y \<and> m = 2 \<and> d = 29")
    case True
    then show ?thesis by (simp add: monthDay_def yearDayOf_def daysBefore_simps)
  next
    case False
    define day where "day = daysBefore (m - 1) + (d - 1)"
    have lo: "daysBefore (m - 1) \<le> day" using d by (simp add: day_def)
    have hi: "day < daysBefore m"
      using month_cases [OF m] d False
      by (elim disjE) (simp_all add: day_def daysIn_def daysBefore_simps split: if_splits)
    have adj: "yearDayOf y m d = (if isLeap y \<and> 3 \<le> m then day + 1 else day)"
      by (simp add: yearDayOf_def day_def)
    have ne: "\<not> (isLeap y \<and> yearDayOf y m d = 31 + 29 - 1)"
      using month_cases [OF m] d False
      by (elim disjE) (simp_all add: yearDayOf_def daysIn_def daysBefore_simps split: if_splits)
    have gt: "(isLeap y \<and> yearDayOf y m d > 31 + 29 - 1) \<longleftrightarrow> (isLeap y \<and> 3 \<le> m)"
      using month_cases [OF m] d False
      by (elim disjE) (simp_all add: yearDayOf_def daysIn_def daysBefore_simps split: if_splits)
    have "(if isLeap y \<and> yearDayOf y m d > 31 + 29 - 1 then yearDayOf y m d - 1
           else yearDayOf y m d) = day"
      unfolding gt by (simp add: adj)
    then have "monthDay (isLeap y) (yearDayOf y m d) =
        (if day \<ge> daysBefore (day div 31 + 1)
          then (day div 31 + 2, day - daysBefore (day div 31 + 1) + 1)
          else (day div 31 + 1, day - daysBefore (day div 31) + 1))"
      using ne unfolding monthDay_def Let_def by (simp only: if_False)
    also have "\<dots> = (m, day - daysBefore (m - 1) + 1)"
      by (rule month_of_day [OF m lo hi])
    also have "\<dots> = (m, d)" by (simp add: day_def)
    finally show ?thesis .
  qed
qed

lemma absDate_dateToAbs:
  assumes "validDate y m d"
  shows "absDate (dateToAbs y m d) = (y, m, d)"
proof -
  from assms have m: "1 \<le> m" "m \<le> 12" by (simp_all add: validDate_def)
  have "yearDay (dateToAbs y m d) = (y, yearDayOf y m d)"
    unfolding dateToAbs_month [OF m] using yearDayOf_bounds [OF assms] by (rule yearDay_unique)
  then show ?thesis
    by (simp add: absDate_def monthDay_yearDayOf [OF assms])
qed

lemma exists_validDate:
  assumes "0 \<le> yd" "yd < yearLen y"
  shows "\<exists>m d. validDate y m d \<and> yearDayOf y m d = yd"
proof (cases "isLeap y \<and> yd = 59")
  case True
  then have "validDate y 2 29 \<and> yearDayOf y 2 29 = yd"
    by (simp add: validDate_def daysIn_def yearDayOf_def daysBefore_simps)
  then show ?thesis by blast
next
  case False
  define day where "day = (if isLeap y \<and> yd > 59 then yd - 1 else yd)"
  have "0 \<le> day" "day < 365" using assms False by (auto simp: day_def yearLen_def split: if_splits)
  from exists_month [OF this] obtain m where m: "1 \<le> m" "m \<le> 12"
    and lo: "daysBefore (m - 1) \<le> day" and hi: "day < daysBefore m" by blast
  define d where "d = day - daysBefore (m - 1) + 1"
  have m3: "3 \<le> m \<longleftrightarrow> 59 \<le> day"
    using month_cases [OF m] lo hi by (elim disjE) (simp_all add: daysBefore_simps)
  have "validDate y m d"
    using month_cases [OF m] lo hi
    by (elim disjE) (simp_all add: validDate_def d_def daysIn_def daysBefore_simps)
  moreover have "yearDayOf y m d = yd"
    using False m3 by (auto simp: yearDayOf_def d_def day_def split: if_splits)
  ultimately show ?thesis by blast
qed

lemma absDate_correct:
  assumes "absDate n = (y, m, d)"
  shows "validDate y m d \<and> dateToAbs y m d = n"
proof -
  obtain y' yd where yd: "yearDay n = (y', yd)" by force
  from yearDay_correct [OF yd] have b: "0 \<le> yd" "yd < yearLen y'"
    and n: "daysSinceEpoch y' + yd = n" by simp_all
  from exists_validDate [OF b] obtain m' d' where v: "validDate y' m' d'"
    and e: "yearDayOf y' m' d' = yd" by blast
  have "absDate n = (y', m', d')"
    using monthDay_yearDayOf [OF v] by (simp add: absDate_def yd e)
  with assms have "y = y'" "m = m'" "d = d'" by simp_all
  moreover from v have "dateToAbs y' m' d' = n"
    using n e by (simp add: dateToAbs_month validDate_def)
  ultimately show ?thesis using v by simp
qed

section \<open>Dates and the loop of nextDaily\<close>

lemma date_fields:
  "validDate (Year t) (Month t) (Day t)" "dateToAbs (Year t) (Month t) (Day t) = absDay t"
proof -
  have "absDate (absDay t) = (Year t, Month t, Day t)"
    by (simp add: Year_def Month_def Day_def)
  from absDate_correct [OF this]
  show "validDate (Year t) (Month t) (Day t)" "dateToAbs (Year t) (Month t) (Day t) = absDay t"
    by simp_all
qed

lemma Date_fields:
  assumes "validDate y m d"
  shows "Year (Date y m d) = y" "Month (Date y m d) = m" "Day (Date y m d) = d"
  using absDate_dateToAbs [OF assms] by (simp_all add: Year_def Month_def Day_def Date_def)

lemma dateToAbs_add_days: "dateToAbs y m (d + n) = dateToAbs y m d + n"
  by (simp add: dateToAbs_def Let_def)

lemma AddDate_days: "AddDate 0 0 n t = t\<lparr>absDay := absDay t + n\<rparr>"
  by (simp add: AddDate_def dateToAbs_add_days date_fields)

lemma midnight_eq: "midnight t = \<lparr>absDay = absDay t, dayNsec = 0\<rparr>"
  by (simp add: midnight_def Date_def date_fields)

lemma afterNow_midnight:
  "dayNsec t = 0 \<Longrightarrow> afterNow (midnight now) t \<longleftrightarrow> absDay now < absDay t"
  by (simp add: afterNow_def Before_def midnight_eq)

lemma funpow_AddDate_days:
  "(AddDate 0 0 n ^^ k) t = t\<lparr>absDay := absDay t + int k * n\<rparr>"
  by (induction k arbitrary: t) (simp_all add: AddDate_days algebra_simps funpow_swap1)

lemma dailyLoop_bounded:
  assumes "1 \<le> n"
  shows "\<exists>k. 1 \<le> k \<and> int k \<le> max 1 ((absDay now - absDay s) div n + 1)
             \<and> dailyLoop now n s = Some ((AddDate 0 0 n ^^ k) s)
             \<and> afterNow now ((AddDate 0 0 n ^^ k) s)
             \<and> (\<forall>j. 1 \<le> j \<and> j < k \<longrightarrow> \<not> afterNow now ((AddDate 0 0 n ^^ j) s))"
proof (induction "nat (absDay now - absDay s)" arbitrary: s rule: less_induct)
  case less
  let ?s' = "AddDate 0 0 n s"
  show ?case
  proof (cases "afterNow now ?s'")
    case True
    then have "dailyLoop now n s = Some ((AddDate 0 0 n ^^ 1) s)"
      by (subst dailyLoop.simps) simp
    moreover have "afterNow now ((AddDate 0 0 n ^^ 1) s)" using True by simp
    ultimately show ?thesis by (intro exI [of _ 1]) simp
  next
    case False
    then have le: "absDay s + n \<le> absDay now"
      by (auto simp: afterNow_def Before_def AddDate_days)
    then have "nat (absDay now - absDay ?s') < nat (absDay now - absDay s)"
      using assms by (simp add: AddDate_days)
    from less [OF this] obtain k where k: "1 \<le> k"
      "int k \<le> max 1 ((absDay now - absDay ?s') div n + 1)"
      "dailyLoop now n ?s' = Some ((AddDate 0 0 n ^^ k) ?s')"
      "afterNow now ((AddDate 0 0 n ^^ k) ?s')"
      "\<forall>j. 1 \<le> j \<and> j < k \<longrightarrow> \<not> afterNow now ((AddDate 0 0 n ^^ j) ?s')"
      by blast
    have "(absDay now - absDay s - n + n) div n = (absDay now - absDay s - n) div n + 1"
      using assms by (subst div_add_self2) simp_all
    then have g: "(absDay now - absDay ?s') div n + 1 = (absDay now - absDay s) div n"
      by (simp add: AddDate_days algebra_simps)
    have "n div n \<le> (absDay now - absDay s) div n"
      using le assms by (intro zdiv_mono1) simp_all
    then have ge1: "1 \<le> (absDay now - absDay s) div n" using assms by simp
    have iter: "\<And>j. (AddDate 0 0 n ^^ Suc j) s = (AddDate 0 0 n ^^ j) ?s'"
      by (simp add: funpow_swap1)
    have 1: "int (Suc k) \<le> max 1 ((absDay now - absDay s) div n + 1)"
      using k(2) g ge1 by simp
    have 2: "dailyLoop now n s = Some ((AddDate 0 0 n ^^ Suc k) s)"
      using False k(3) by (subst dailyLoop.simps) (simp add: funpow_swap1)
    have 3: "afterNow now ((AddDate 0 0 n ^^ Suc k) s)"
      using k(4) by (simp add: funpow_swap1)
    have 4: "\<not> afterNow now ((AddDate 0 0 n ^^ j) s)" if "1 \<le> j \<and> j < Suc k" for j
    proof (cases j)
      case 0
      with that show ?thesis by simp
    next
      case (Suc j')
      show ?thesis
      proof (cases "j' = 0")
        case True
        with Suc False show ?thesis by simp
      next
        case F: False
        with Suc that k(5) have "\<not> afterNow now ((AddDate 0 0 n ^^ j') ?s')" by simp
        then show ?thesis unfolding Suc by (simp add: funpow_swap1)
      qed
    qed
    show ?thesis
      using 1 2 3 4 by (intro exI [of _ "Suc k"]) simp
  qed
qed

section \<open>Numbers in rules\<close>

lemma isDigit_chars:
  assumes "isDigit c"
  shows "c \<noteq> CHR '' ''" "c \<noteq> CHR '',''" "c \<noteq> CHR ''-''" "c \<noteq> CHR ''+''"
  using assms by (auto simp: isDigit_def)

lemma digitVal_bounds: "isDigit c \<Longrightarrow> 0 \<le> digitVal c \<and> digitVal c \<le> 9"
  by (auto simp: isDigit_def digitVal_def)

lemma decimal_bounds:
  assumes "digitString 3 ds"
  shows "0 \<le> decimal ds" "decimal ds \<le> 999"
proof -
  from assms have d: "list_all isDigit ds"
    and "(\<exists>a. ds = [a]) \<or> (\<exists>a b. ds = [a, b]) \<or> (\<exists>a b c. ds = [a, b, c])"
    using short_list_cases(2) [of ds] by (simp_all add: digitString_def)
  then consider a where "ds = [a]" | a b where "ds = [a, b]" | a b c where "ds = [a, b, c]"
    by auto
  then have "0 \<le> decimal ds \<and> decimal ds \<le> 999"
  proof cases
    case 1
    with d digitVal_bounds [of a] show ?thesis by (simp add: decimal_def)
  next
    case 2
    with d digitVal_bounds [of a] digitVal_bounds [of b] show ?thesis by (simp add: decimal_def)
  next
    case 3
    with d digitVal_bounds [of a] digitVal_bounds [of b] digitVal_bounds [of c]
    show ?thesis by (simp add: decimal_def)
  qed
  then show "0 \<le> decimal ds" "decimal ds \<le> 999" by simp_all
qed

lemma digitString_mono: "digitString m ds \<Longrightarrow> m \<le> n \<Longrightarrow> digitString n ds"
  by (simp add: digitString_def)

lemma Atoi_digitString:
  assumes "digitString 3 ds"
  shows "Atoi ds = Some (decimal ds)"
proof -
  from assms obtain c cs where ds: "ds = c # cs" and c: "isDigit c" and all: "list_all isDigit ds"
    by (cases ds) (auto simp: digitString_def)
  from decimal_bounds [OF assms] have "\<not> (decimal ds < - (2 ^ 63) \<or> 2 ^ 63 - 1 < decimal ds)"
    by simp
  then show ?thesis
    using isDigit_chars [OF c] all unfolding Atoi_def Let_def ds by simp
qed

lemma Atoi_minus:
  assumes "digitString 3 ds"
  shows "Atoi (CHR ''-'' # ds) = Some (- decimal ds)"
proof -
  from assms have all: "list_all isDigit ds" "ds \<noteq> []"
    by (auto simp: digitString_def)
  from decimal_bounds [OF assms] have "\<not> (- decimal ds < - (2 ^ 63) \<or> 2 ^ 63 - 1 < - decimal ds)"
    by simp
  then show ?thesis
    using all unfolding Atoi_def Let_def by simp
qed

lemma digitString_no_sep:
  assumes "digitString n ds"
  shows "CHR '' '' \<notin> set ds" "CHR '','' \<notin> set ds"
  using assms isDigit_chars(1,2) by (auto simp: digitString_def list_all_iff)

lemma Split_two: "sep \<notin> set u \<Longrightarrow> sep \<notin> set v \<Longrightarrow> Split (u @ sep # v) sep = [u, v]"
  by (simp add: Split_append Split_no_sep)

lemma nextDaily_rule:
  assumes "digitString 3 ds"
  shows "nextDaily now startDate (''d '' @ ds) =
     (if decimal ds \<le> 0 \<or> decimal ds > 400 then Some (Inl InvalidNumericField)
      else map_option (\<lambda>t. Inr (Format t)) (dailyLoop now (decimal ds) startDate))"
proof -
  have "Split (''d'' @ CHR '' '' # ds) CHR '' '' = [''d'', ds]"
    using digitString_no_sep(1) [OF assms] by (intro Split_two) simp_all
  then show ?thesis
    by (simp add: nextDaily_def Atoi_digitString [OF assms] maxDaysInterval_def)
qed

section \<open>Daily rules\<close>

text \<open>\<open>plusDays t n\<close> is the time \<open>n\<close> days after \<open>t\<close>, at the same time of day.\<close>

definition plusDays :: "Time \<Rightarrow> int \<Rightarrow> Time" where
  "plusDays t n = t\<lparr>absDay := absDay t + n\<rparr>"

lemma Parse_Some:
  assumes "Parse s = Some t"
  shows "dayNsec t = 0" "validDate (Year t) (Month t) (Day t)"
  using assms date_fields(1) [of t]
  by (auto simp: Parse_def Let_def Date_def split: if_splits)

lemma NextDate_daily:
  assumes "TrimSpace repeat = ''d '' @ ds" "digitString 3 ds"
    and "Parse (TrimSpace dStart) = Some startDate"
  shows "NextDate now dStart repeat =
     (if decimal ds \<le> 0 \<or> decimal ds > 400 then Some (Inl InvalidNumericField)
      else map_option (\<lambda>t. Inr (Format t)) (dailyLoop (midnight now) (decimal ds) startDate))"
proof -
  have "MatchString reDay (''d '' @ ds)"
    unfolding MatchString_reDay using assms(2) by blast
  then show ?thesis
    unfolding NextDate_def assms(1) assms(3) using nextDaily_rule [OF assms(2)]
    by simp
qed

text \<open>
  Claim C1. For a daily rule \<open>d n\<close> with \<open>1 \<le> n \<le> 400\<close> (one to three digits
  \<open>ds\<close> of value \<open>n\<close>), a start that parses and any now, \<open>NextDate\<close> returns the
  date \<open>k * n\<close> days after the start, where \<open>k \<ge> 1\<close> is the smallest number for
  which that date is strictly after the midnight of now.
\<close>

theorem C1_daily:
  assumes "TrimSpace repeat = ''d '' @ ds" "digitString 3 ds"
    and "1 \<le> decimal ds" "decimal ds \<le> 400"
    and "Parse (TrimSpace dStart) = Some startDate"
  shows "\<exists>k. 1 \<le> k
    \<and> NextDate now dStart repeat = Some (Inr (Format (plusDays startDate (int k * decimal ds))))
    \<and> Before (midnight now) (plusDays startDate (int k * decimal ds))
    \<and> (\<forall>j. 1 \<le> j \<and> j < k \<longrightarrow> \<not> Before (midnight now) (plusDays startDate (int j * decimal ds)))"
proof -
  have it: "(AddDate 0 0 (decimal ds) ^^ j) startDate = plusDays startDate (int j * decimal ds)" for j
    by (simp add: funpow_AddDate_days plusDays_def)
  from dailyLoop_bounded [OF assms(3), of "midnight now" startDate]
  obtain k where "1 \<le> k"
    "dailyLoop (midnight now) (decimal ds) startDate = Some (plusDays startDate (int k * decimal ds))"
    "afterNow (midnight now) (plusDays startDate (int k * decimal ds))"
    "\<forall>j. 1 \<le> j \<and> j < k \<longrightarrow> \<not> afterNow (midnight now) (plusDays startDate (int j * decimal ds))"
    unfolding it by blast
  then show ?thesis
    using assms(3,4) unfolding NextDate_daily [OF assms(1,2,5)] afterNow_def
    by (intro exI [of _ k]) simp
qed

lemma Before_midnight_plusDays:
  "dayNsec t = 0 \<Longrightarrow> Before (midnight now) (plusDays t n) \<longleftrightarrow> absDay now < absDay t + n"
  by (simp add: Before_def midnight_eq plusDays_def)

text \<open>The rule \<open>d 3\<close> from 1 March 2024, seen on 5 March 2024, satisfies the hypotheses.\<close>

theorem C1_daily_witness:
  "TrimSpace ''d 3'' = ''d '' @ ''3'' \<and> digitString 3 ''3'' \<and> decimal ''3'' = 3
   \<and> Parse (TrimSpace ''20240301'') = Some (Date 2024 3 1)
   \<and> (\<exists>k. 1 \<le> k
      \<and> NextDate \<lparr>absDay = dateToAbs 2024 3 5, dayNsec = 0\<rparr> ''20240301'' ''d 3''
          = Some (Inr (Format (plusDays (Date 2024 3 1) (int k * 3))))
      \<and> Before (midnight \<lparr>absDay = dateToAbs 2024 3 5, dayNsec = 0\<rparr>)
           (plusDays (Date 2024 3 1) (int k * 3)))"
proof -
  have 1: "TrimSpace ''d 3'' = ''d '' @ ''3''" by code_simp
  have 2: "digitString 3 ''3''" by code_simp
  have 3: "decimal ''3'' = 3" by code_simp
  have 4: "Parse (TrimSpace ''20240301'') = Some (Date 2024 3 1)" by code_simp
  have 5: "1 \<le> decimal ''3''" "decimal ''3'' \<le> 400" by (simp_all add: 3)
  from C1_daily [OF 1 2 5 4, of "\<lparr>absDay = dateToAbs 2024 3 5, dayNsec = 0\<rparr>"] 1 2 3 4
  show ?thesis by auto
qed

section \<open>Yearly rules\<close>

text \<open>The month and the day a date has after whole years were added one at a time.\<close>

definition yearlyMonth :: "Time \<Rightarrow> int" where
  "yearlyMonth t = (if Month t = 2 \<and> Day t = 29 then 3 else Month t)"

definition yearlyDay :: "Time \<Rightarrow> int" where
  "yearlyDay t = (if Month t = 2 \<and> Day t = 29 then 1 else Day t)"

lemma Year_yearDay: "Year t = fst (yearDay (absDay t))"
  by (simp add: Year_def absDate_def split: prod.splits)

lemma absDay_in_year:
  "daysSinceEpoch (Year t) \<le> absDay t" "absDay t < daysSinceEpoch (Year t) + yearLen (Year t)"
proof -
  obtain y yd where e: "yearDay (absDay t) = (y, yd)" by force
  from yearDay_correct [OF e] e
  show "daysSinceEpoch (Year t) \<le> absDay t" "absDay t < daysSinceEpoch (Year t) + yearLen (Year t)"
    by (simp_all add: Year_yearDay)
qed

lemma Year_mono:
  assumes "absDay a \<le> absDay b"
  shows "Year a \<le> Year b"
proof (rule ccontr)
  assume "\<not> Year a \<le> Year b"
  then have "Year b < Year a" by simp
  from daysSinceEpoch_mono [OF this] absDay_in_year [of a] absDay_in_year [of b] assms
  show False by linarith
qed

lemma leap_next: "isLeap y \<Longrightarrow> \<not> isLeap (y + 1)"
proof -
  assume "isLeap y"
  then have "y mod 4 = 0" by (simp add: isLeap_def)
  then have "(y + 1) mod 4 = 1 mod 4" by (metis add.left_neutral mod_add_left_eq)
  then show ?thesis by (simp add: isLeap_def)
qed

lemma validDate_other_year:
  assumes "validDate y m d" "\<not> (m = 2 \<and> d = 29)"
  shows "validDate y' m d"
  using assms by (auto simp: validDate_def daysIn_def daysBefore_simps split: if_splits)

lemma dateToAbs_feb29:
  assumes "\<not> isLeap y"
  shows "dateToAbs y 2 29 = dateToAbs y 3 1"
  using assms by (simp add: dateToAbs_month yearDayOf_def daysBefore_simps)

lemma validDate_feb29: "validDate y 2 29 \<Longrightarrow> isLeap y"
  by (auto simp: validDate_def daysIn_def daysBefore_simps split: if_splits)

lemma validDate_mar1: "validDate y 3 1"
  by (simp add: validDate_def daysIn_def daysBefore_simps)

lemma yearly_valid: "validDate y (yearlyMonth t) (yearlyDay t)"
  using date_fields(1) [of t] validDate_mar1
  by (auto simp: yearlyMonth_def yearlyDay_def intro: validDate_other_year)

lemma yearly_not_feb29: "\<not> (yearlyMonth t = 2 \<and> yearlyDay t = 29)"
  by (auto simp: yearlyMonth_def yearlyDay_def)

lemma AddDate_year_first:
  "absDay (AddDate 1 0 0 t) = dateToAbs (Year t + 1) (yearlyMonth t) (yearlyDay t)"
proof (cases "Month t = 2 \<and> Day t = 29")
  case True
  then have "validDate (Year t) 2 29" using date_fields(1) [of t] by simp
  then have "\<not> isLeap (Year t + 1)" by (intro leap_next validDate_feb29)
  then show ?thesis
    using True by (simp add: AddDate_def yearlyMonth_def yearlyDay_def dateToAbs_feb29)
next
  case False
  then show ?thesis by (auto simp: AddDate_def yearlyMonth_def yearlyDay_def)
qed

lemma AddDate_year_fields:
  "Year (AddDate 1 0 0 t) = Year t + 1"
  "Month (AddDate 1 0 0 t) = yearlyMonth t"
  "Day (AddDate 1 0 0 t) = yearlyDay t"
  using absDate_dateToAbs [OF yearly_valid [of "Year t + 1" t]]
  by (simp_all add: Year_def Month_def Day_def AddDate_year_first)

lemma yearly_idem:
  "yearlyMonth (AddDate 1 0 0 t) = yearlyMonth t" "yearlyDay (AddDate 1 0 0 t) = yearlyDay t"
  using yearly_not_feb29 [of t]
  by (auto simp: yearlyMonth_def [of "AddDate _ _ _ _"] yearlyDay_def [of "AddDate _ _ _ _"]
        AddDate_year_fields)

lemma funpow_AddDate_year:
  "1 \<le> k \<Longrightarrow> (AddDate 1 0 0 ^^ k) t =
     \<lparr>absDay = dateToAbs (Year t + int k) (yearlyMonth t) (yearlyDay t), dayNsec = dayNsec t\<rparr>"
proof (induction k arbitrary: t)
  case 0
  then show ?case by simp
next
  case (Suc k)
  show ?case
  proof (cases "k = 0")
    case True
    have "AddDate 1 0 0 t = \<lparr>absDay = absDay (AddDate 1 0 0 t), dayNsec = dayNsec t\<rparr>"
      by (simp add: AddDate_def)
    then show ?thesis using True by (simp add: AddDate_year_first)
  next
    case False
    define s where "s = AddDate 1 0 0 t"
    have f: "Year s = Year t + 1" "yearlyMonth s = yearlyMonth t" "yearlyDay s = yearlyDay t"
      "dayNsec s = dayNsec t"
      unfolding s_def by (simp_all add: AddDate_year_fields yearly_idem) (simp add: AddDate_def)
    from False have "(AddDate 1 0 0 ^^ k) s =
      \<lparr>absDay = dateToAbs (Year s + int k) (yearlyMonth s) (yearlyDay s), dayNsec = dayNsec s\<rparr>"
      by (intro Suc.IH) simp
    moreover have "(AddDate 1 0 0 ^^ Suc k) t = (AddDate 1 0 0 ^^ k) s"
      unfolding s_def by (simp add: funpow_swap1)
    ultimately show ?thesis by (simp add: f algebra_simps)
  qed
qed

lemma AddDate_year_increases: "absDay t < absDay (AddDate 1 0 0 t)"
proof -
  have "Year t < Year (AddDate 1 0 0 t)" by (simp add: AddDate_year_fields)
  then have "\<not> absDay (AddDate 1 0 0 t) \<le> absDay t" using Year_mono by fastforce
  then show ?thesis by simp
qed

lemma yearlyLoop_bounded:
  "\<exists>k. 1 \<le> k \<and> int k \<le> max 1 (Year now - Year s + 1)
         \<and> yearlyLoop now s = Some ((AddDate 1 0 0 ^^ k) s)
         \<and> afterNow now ((AddDate 1 0 0 ^^ k) s)
         \<and> (\<forall>j. 1 \<le> j \<and> j < k \<longrightarrow> \<not> afterNow now ((AddDate 1 0 0 ^^ j) s))"
proof (induction "nat (Year now - Year s)" arbitrary: s rule: less_induct)
  case less
  let ?s' = "AddDate 1 0 0 s"
  show ?case
  proof (cases "afterNow now ?s'")
    case True
    then have "yearlyLoop now s = Some ((AddDate 1 0 0 ^^ 1) s)"
      by (subst yearlyLoop.simps) simp
    moreover have "afterNow now ((AddDate 1 0 0 ^^ 1) s)" using True by simp
    ultimately show ?thesis by (intro exI [of _ 1]) simp
  next
    case False
    then have "absDay ?s' \<le> absDay now"
      by (auto simp: afterNow_def Before_def)
    then have le: "Year s + 1 \<le> Year now"
      using Year_mono [of ?s' now] by (simp add: AddDate_year_fields)
    then have "nat (Year now - Year ?s') < nat (Year now - Year s)"
      by (simp add: AddDate_year_fields)
    from less [OF this] obtain k where k: "1 \<le> k"
      "int k \<le> max 1 (Year now - Year ?s' + 1)"
      "yearlyLoop now ?s' = Some ((AddDate 1 0 0 ^^ k) ?s')"
      "afterNow now ((AddDate 1 0 0 ^^ k) ?s')"
      "\<forall>j. 1 \<le> j \<and> j < k \<longrightarrow> \<not> afterNow now ((AddDate 1 0 0 ^^ j) ?s')"
      by blast
    have 1: "int (Suc k) \<le> max 1 (Year now - Year s + 1)"
      using k(2) le by (simp add: AddDate_year_fields)
    have 2: "yearlyLoop now s = Some ((AddDate 1 0 0 ^^ Suc k) s)"
      using False k(3) by (subst yearlyLoop.simps) (simp add: funpow_swap1)
    have 3: "afterNow now ((AddDate 1 0 0 ^^ Suc k) s)"
      using k(4) by (simp add: funpow_swap1)
    have 4: "\<not> afterNow now ((AddDate 1 0 0 ^^ j) s)" if "1 \<le> j \<and> j < Suc k" for j
    proof (cases j)
      case 0
      with that show ?thesis by simp
    next
      case (Suc j')
      show ?thesis
      proof (cases "j' = 0")
        case True
        with Suc False show ?thesis by simp
      next
        case F: False
        with Suc that k(5) have "\<not> afterNow now ((AddDate 1 0 0 ^^ j') ?s')" by simp
        then show ?thesis unfolding Suc by (simp add: funpow_swap1)
      qed
    qed
    show ?thesis
      using 1 2 3 4 by (intro exI [of _ "Suc k"]) simp
  qed
qed

lemma NextDate_yearly:
  assumes "TrimSpace repeat = ''y''" "Parse (TrimSpace dStart) = Some startDate"
  shows "NextDate now dStart repeat =
     map_option (\<lambda>t. Inr (Format t)) (yearlyLoop (midnight now) startDate)"
proof -
  have "\<not> MatchString reDay ''y''" "MatchString reYear ''y''"
    unfolding MatchString_reDay MatchString_reYear by simp_all
  then show ?thesis
    unfolding NextDate_def assms by (simp add: nextYearly_def)
qed

text \<open>
  Claim C3, as amended. For the rule \<open>y\<close>, a start that parses and any now,
  \<open>NextDate\<close> returns the date of year \<open>Year start + k\<close> that has the start's month and
  day, or is 1 March when the start is 29 February, where \<open>k \<ge> 1\<close> is the smallest
  number of years for which that date is strictly after the midnight of now. A start of
  29 February never yields a 29 February, whether the target year is a leap year or not.
\<close>

theorem C3_yearly:
  assumes "TrimSpace repeat = ''y''" "Parse (TrimSpace dStart) = Some startDate"
  shows "\<exists>k. 1 \<le> k
    \<and> NextDate now dStart repeat =
        Some (Inr (Format (Date (Year startDate + int k) (yearlyMonth startDate) (yearlyDay startDate))))
    \<and> validDate (Year startDate + int k) (yearlyMonth startDate) (yearlyDay startDate)
    \<and> Before (midnight now)
         (Date (Year startDate + int k) (yearlyMonth startDate) (yearlyDay startDate))
    \<and> (\<forall>j. 1 \<le> j \<and> j < k \<longrightarrow>
          \<not> Before (midnight now)
              (Date (Year startDate + int j) (yearlyMonth startDate) (yearlyDay startDate)))"
proof -
  have it: "(AddDate 1 0 0 ^^ j) startDate =
      Date (Year startDate + int j) (yearlyMonth startDate) (yearlyDay startDate)"
    if "1 \<le> j" for j
    using funpow_AddDate_year [OF that, of startDate] Parse_Some(1) [OF assms(2)]
    by (simp add: Date_def)
  from yearlyLoop_bounded [of "midnight now" startDate]
  obtain k where k: "1 \<le> k"
    "yearlyLoop (midnight now) startDate = Some ((AddDate 1 0 0 ^^ k) startDate)"
    "afterNow (midnight now) ((AddDate 1 0 0 ^^ k) startDate)"
    "\<forall>j. 1 \<le> j \<and> j < k \<longrightarrow> \<not> afterNow (midnight now) ((AddDate 1 0 0 ^^ j) startDate)"
    by blast
  have "\<not> Before (midnight now)
              (Date (Year startDate + int j) (yearlyMonth startDate) (yearlyDay startDate))"
    if "1 \<le> j \<and> j < k" for j
  proof -
    from k(4) that have "\<not> afterNow (midnight now) ((AddDate 1 0 0 ^^ j) startDate)" by blast
    then show ?thesis using that it [of j] by (simp add: afterNow_def)
  qed
  then show ?thesis
    using k(1,2,3) it [OF k(1)] yearly_valid unfolding NextDate_yearly [OF assms] afterNow_def
    by (intro exI [of _ k]) simp
qed


lemma yearly_scenario_value:
  "NextDate (Date 2023 6 1) ''20200229'' ''y'' = Some (Inr ''20240301'')"
  by code_simp

text \<open>
  From 29 February 2020, seen on 1 June 2023: adding one, two or three years to the start
  gives a date not after now, adding four gives 29 February of the leap year 2024, which
  is after now and is what the claim names. The call returns 1 March 2024 instead: the
  loop adds the years one at a time, and the first step has already left 29 February.
\<close>

theorem C3_counterexample:
  "Parse ''20200229'' = Some (Date 2020 2 29)
   \<and> \<not> Before (midnight (Date 2023 6 1)) (AddDate 1 0 0 (Date 2020 2 29))
   \<and> \<not> Before (midnight (Date 2023 6 1)) (AddDate 2 0 0 (Date 2020 2 29))
   \<and> \<not> Before (midnight (Date 2023 6 1)) (AddDate 3 0 0 (Date 2020 2 29))
   \<and> Before (midnight (Date 2023 6 1)) (AddDate 4 0 0 (Date 2020 2 29))
   \<and> isLeap 2024
   \<and> Format (AddDate 4 0 0 (Date 2020 2 29)) = ''20240229''
   \<and> NextDate (Date 2023 6 1) ''20200229'' ''y'' \<noteq> Some (Inr ''20240229'')"
proof -
  have "Parse ''20200229'' = Some (Date 2020 2 29)" by code_simp
  moreover have "\<not> Before (midnight (Date 2023 6 1)) (AddDate 1 0 0 (Date 2020 2 29))" by code_simp
  moreover have "\<not> Before (midnight (Date 2023 6 1)) (AddDate 2 0 0 (Date 2020 2 29))" by code_simp
  moreover have "\<not> Before (midnight (Date 2023 6 1)) (AddDate 3 0 0 (Date 2020 2 29))" by code_simp
  moreover have "Before (midnight (Date 2023 6 1)) (AddDate 4 0 0 (Date 2020 2 29))" by code_simp
  moreover have "isLeap 2024" by code_simp
  moreover have "Format (AddDate 4 0 0 (Date 2020 2 29)) = ''20240229''" by code_simp
  moreover have "NextDate (Date 2023 6 1) ''20200229'' ''y'' \<noteq> Some (Inr ''20240229'')"
    using yearly_scenario_value by simp
  ultimately show ?thesis by blast
qed

text \<open>The same call satisfies the hypotheses of the amended claim.\<close>

theorem C3_yearly_witness:
  "TrimSpace ''y'' = ''y'' \<and> Parse (TrimSpace ''20200229'') = Some (Date 2020 2 29)
   \<and> (\<exists>k. 1 \<le> k
      \<and> NextDate (Date 2023 6 1) ''20200229'' ''y'' =
          Some (Inr (Format (Date (Year (Date 2020 2 29) + int k) (yearlyMonth (Date 2020 2 29))
                                (yearlyDay (Date 2020 2 29)))))
      \<and> validDate (Year (Date 2020 2 29) + int k) (yearlyMonth (Date 2020 2 29))
           (yearlyDay (Date 2020 2 29)))"
proof -
  have 1: "TrimSpace ''y'' = ''y''" by code_simp
  have 2: "Parse (TrimSpace ''20200229'') = Some (Date 2020 2 29)" by code_simp
  from C3_yearly [OF 1 2, of "Date 2023 6 1"] 1 2 show ?thesis by blast
qed

section \<open>Termination\<close>

lemma NextDate_returns: "\<exists>r. NextDate now dStart repeat = Some r"
proof (cases "TrimSpace repeat \<noteq> [] \<and> (\<exists>t. Parse (TrimSpace dStart) = Some t)
               \<and> (MatchString reDay (TrimSpace repeat) \<or> MatchString reYear (TrimSpace repeat))")
  case False
  then show ?thesis by (auto simp: NextDate_def split: option.splits)
next
  case True
  then obtain t where t: "Parse (TrimSpace dStart) = Some t" by blast
  from True consider "MatchString reDay (TrimSpace repeat)" | "MatchString reYear (TrimSpace repeat)"
    by blast
  then show ?thesis
  proof cases
    case 1
    then obtain ds where ds: "TrimSpace repeat = ''d '' @ ds" "digitString 3 ds"
      unfolding MatchString_reDay by blast
    show ?thesis
    proof (cases "decimal ds \<le> 0 \<or> decimal ds > 400")
      case True
      then show ?thesis unfolding NextDate_daily [OF ds t] by simp
    next
      case False
      then have "1 \<le> decimal ds" by simp
      from dailyLoop_bounded [OF this, of "midnight now" t] False
      show ?thesis unfolding NextDate_daily [OF ds t] by auto
    qed
  next
    case 2
    then have y: "TrimSpace repeat = ''y''" unfolding MatchString_reYear .
    from yearlyLoop_bounded [of "midnight now" t]
    show ?thesis unfolding NextDate_yearly [OF y t] by auto
  qed
qed

text \<open>
  Claim C9. One pass of the daily loop moves the candidate forward by \<open>days \<ge> 1\<close> days
  and one pass of the yearly loop moves it forward by a year, so both loops return: the
  daily one after \<open>k\<close> passes with \<open>k\<close> at most the gap in days divided by the
  interval, plus one, the yearly one after at most the gap in years plus one. With them
  \<open>NextDate\<close> returns on every input.
\<close>

theorem C9_loops_terminate:
  "(1 \<le> days \<longrightarrow> absDay t < absDay (AddDate 0 0 days t))
   \<and> absDay t < absDay (AddDate 1 0 0 t)
   \<and> (1 \<le> days \<longrightarrow>
        (\<exists>k. 1 \<le> k \<and> int k \<le> max 1 ((absDay now - absDay startDate) div days + 1)
           \<and> dailyLoop now days startDate = Some ((AddDate 0 0 days ^^ k) startDate)))
   \<and> (\<exists>k. 1 \<le> k \<and> int k \<le> max 1 (Year now - Year startDate + 1)
           \<and> yearlyLoop now startDate = Some ((AddDate 1 0 0 ^^ k) startDate))
   \<and> (\<exists>r. NextDate now dStart repeat = Some r)"
proof -
  have 1: "1 \<le> days \<longrightarrow> absDay t < absDay (AddDate 0 0 days t)"
    by (simp add: AddDate_days)
  have 3: "1 \<le> days \<longrightarrow>
        (\<exists>k. 1 \<le> k \<and> int k \<le> max 1 ((absDay now - absDay startDate) div days + 1)
           \<and> dailyLoop now days startDate = Some ((AddDate 0 0 days ^^ k) startDate))"
    using dailyLoop_bounded [of days now startDate] by blast
  have 4: "\<exists>k. 1 \<le> k \<and> int k \<le> max 1 (Year now - Year startDate + 1)
           \<and> yearlyLoop now startDate = Some ((AddDate 1 0 0 ^^ k) startDate)"
    using yearlyLoop_bounded [of now startDate] by blast
  from 1 AddDate_year_increases [of t] 3 4 NextDate_returns [of now dStart repeat]
  show ?thesis by blast
qed

text \<open>An interval of three days satisfies the hypothesis on \<open>days\<close>.\<close>

theorem C9_loops_terminate_witness:
  "(1::int) \<le> 3
   \<and> absDay (Date 2024 3 1) < absDay (AddDate 0 0 3 (Date 2024 3 1))
   \<and> (\<exists>k. 1 \<le> k \<and> int k \<le> max 1 ((absDay (Date 2024 3 5) - absDay (Date 2024 3 1)) div 3 + 1)
         \<and> dailyLoop (Date 2024 3 5) 3 (Date 2024 3 1)
             = Some ((AddDate 0 0 3 ^^ k) (Date 2024 3 1)))
   \<and> (\<exists>r. NextDate (Date 2024 3 5) ''20240301'' ''d 3'' = Some r)"
  using C9_loops_terminate [of 3 "Date 2024 3 1" "Date 2024 3 5" "Date 2024 3 1" "''20240301''" "''d 3''"]
  by simp

section \<open>Weekly rules\<close>

text \<open>The ISO number of a day of the week: Monday is 1, ..., Sunday 7.\<close>

definition isoWeekday :: "Time \<Rightarrow> int" where
  "isoWeekday t = (if Weekday t = 0 then 7 else Weekday t)"

lemma sortUniqueInts_set: "set (sortUniqueInts xs) = set xs"
  by (simp add: sortUniqueInts_def)

lemma sortUniqueInts_sorted: "sorted (sortUniqueInts xs)"
  by (simp add: sortUniqueInts_def sorted_remdups_adj)

lemma sortUniqueInts_Nil: "sortUniqueInts xs = [] \<longleftrightarrow> xs = []"
  by (metis sortUniqueInts_set set_empty)

lemma digitString1_decimal:
  assumes "digitString 1 x"
  shows "Atoi x = Some (decimal x)"
  using Atoi_digitString digitString_mono [OF assms, of 3] by simp

lemma weekDaysLoop_ok:
  assumes "\<forall>x\<in>set xs. digitString 1 x \<and> 1 \<le> decimal x \<and> decimal x \<le> 7"
  shows "weekDaysLoop xs acc = Inr (acc @ map decimal xs)"
  using assms by (induction xs arbitrary: acc) (simp_all add: digitString1_decimal)

lemma Weekday_range: "0 \<le> Weekday t" "Weekday t < 7"
  by (simp_all add: Weekday_def)

lemma isoWeekday_range: "1 \<le> isoWeekday t" "isoWeekday t \<le> 7"
  using Weekday_range [of t] by (auto simp: isoWeekday_def)

lemma isoWeekday_shift:
  assumes "1 \<le> w" "w \<le> 7" "n = w - isoWeekday t \<or> n = 7 + w - isoWeekday t"
  shows "isoWeekday (plusDays t n) = w"
proof -
  have "Weekday t = isoWeekday t \<or> Weekday t = isoWeekday t - 7"
    by (simp add: isoWeekday_def)
  with assms(3) have "Weekday t + n = w + 7 * 0 \<or> Weekday t + n = w + 7 * 1
      \<or> Weekday t + n = w + 7 * (- 1)"
    by auto
  then obtain q where "Weekday t + n = w + 7 * q" by blast
  then have "(Weekday t + n) mod 7 = w mod 7" by simp
  moreover have "Weekday (plusDays t n) = (Weekday t + n) mod 7"
    by (simp add: Weekday_def plusDays_def mod_simps algebra_simps)
  ultimately have w: "Weekday (plusDays t n) = w mod 7" by simp
  show ?thesis
  proof (cases "w = 7")
    case True
    then show ?thesis by (simp add: isoWeekday_def w)
  next
    case False
    with assms have "w mod 7 = w" by simp
    with assms show ?thesis by (simp add: isoWeekday_def w)
  qed
qed

lemma set_commas: "set (commas xs) \<subseteq> (\<Union>x\<in>set xs. set x) \<union> {CHR '',''}"
  by (induction xs rule: commas.induct) auto

lemma commas_no_space:
  assumes "\<forall>x\<in>set xs. CHR '' '' \<notin> set x"
  shows "CHR '' '' \<notin> set (commas xs)"
  using set_commas [of xs] assms by auto

lemma find_None_iff2: "find P xs = None \<longleftrightarrow> (\<forall>x\<in>set xs. \<not> P x)"
  by (induction xs) auto

lemma nextWeekly_rule:
  assumes "xs \<noteq> []" "\<forall>x\<in>set xs. digitString 1 x \<and> 1 \<le> decimal x \<and> decimal x \<le> 7"
  shows "\<exists>n w. nextWeekly now startDate (''w '' @ commas xs)
           = Inr (Format (plusDays (computeBaseTime now startDate) n))
         \<and> w \<in> decimal ` set xs \<and> 1 \<le> n \<and> n \<le> 7
         \<and> (n = w - isoWeekday (computeBaseTime now startDate)
            \<or> n = 7 + w - isoWeekday (computeBaseTime now startDate))"
proof -
  define base where "base = computeBaseTime now startDate"
  define wds where "wds = sortUniqueInts (map decimal xs)"
  define cur where "cur = (if Weekday base = 0 then sundayNum else Weekday base)"
  have cur: "cur = isoWeekday base" by (simp add: cur_def isoWeekday_def sundayNum_def)
  have nosp: "CHR '' '' \<notin> set (commas xs)"
    using assms(2) digitString_no_sep(1) by (intro commas_no_space) blast
  have sp: "Split (''w'' @ CHR '' '' # commas xs) CHR '' '' = [''w'', commas xs]"
    using nosp by (intro Split_two) simp_all
  have sc: "Split (commas xs) CHR '','' = xs"
    using assms digitString_no_sep(2) by (intro Split_commas) blast+
  have loop: "weekDaysLoop xs [] = Inr (map decimal xs)"
    using weekDaysLoop_ok [OF assms(2), of "[]"] by simp
  have wset: "set wds = decimal ` set xs" by (simp add: wds_def sortUniqueInts_set)
  have wne: "wds \<noteq> []" using assms(1) by (simp add: wds_def sortUniqueInts_Nil)
  have wrange: "\<forall>w\<in>set wds. 1 \<le> w \<and> w \<le> 7" using assms(2) by (auto simp: wset)
  have unfold: "nextWeekly now startDate (''w '' @ commas xs) =
      (let daysToAdd = (case find (\<lambda>wd. cur < wd) wds of Some wd \<Rightarrow> wd - cur | None \<Rightarrow> 0)
       in if daysToAdd = 0 then
            (case wds of [] \<Rightarrow> Inl IndexPanic
             | w0 # _ \<Rightarrow> Inr (Format (AddDate 0 0 (7 - cur + w0) base)))
          else Inr (Format (AddDate 0 0 daysToAdd base)))"
    unfolding wds_def cur_def base_def using sp by (simp add: nextWeekly_def sc loop Let_def)
  show ?thesis
  proof (cases "find (\<lambda>wd. cur < wd) wds")
    case None
    from wne obtain w0 ws where w0: "wds = w0 # ws" by (cases wds) auto
    then have "w0 \<in> set wds" by simp
    with wrange wset have r: "1 \<le> w0" "w0 \<le> 7" "w0 \<in> decimal ` set xs" by auto
    have "nextWeekly now startDate (''w '' @ commas xs)
        = Inr (Format (plusDays base (7 - cur + w0)))"
      unfolding unfold using None w0 by (simp add: AddDate_days plusDays_def)
    moreover have "1 \<le> 7 - cur + w0" "7 - cur + w0 \<le> 7"
      using r isoWeekday_range [of base] None \<open>w0 \<in> set wds\<close>
      by (auto simp: cur find_None_iff2)
    ultimately show ?thesis
      using r unfolding base_def [symmetric] cur
      by (intro exI [of _ "7 - isoWeekday base + w0"] exI [of _ w0]) simp
  next
    case (Some wd)
    from find_SomeD [OF Some] have wd: "wd \<in> set wds" "cur < wd" by simp_all
    with wrange wset have r: "1 \<le> wd" "wd \<le> 7" "wd \<in> decimal ` set xs" by auto
    have "nextWeekly now startDate (''w '' @ commas xs) = Inr (Format (plusDays base (wd - cur)))"
      unfolding unfold using Some wd by (simp add: AddDate_days plusDays_def)
    moreover have "1 \<le> wd - cur" "wd - cur \<le> 7"
      using r wd isoWeekday_range [of base] by (auto simp: cur)
    ultimately show ?thesis
      using r unfolding base_def [symmetric] cur
      by (intro exI [of _ "wd - isoWeekday base"] exI [of _ wd]) simp
  qed
qed


lemma NextDate_weekly:
  assumes "TrimSpace repeat = ''w '' @ commas xs" "xs \<noteq> []" "\<forall>x\<in>set xs. digitString 1 x"
    and "Parse (TrimSpace dStart) = Some startDate"
  shows "NextDate now dStart repeat
     = Some (nextWeekly (midnight now) startDate (''w '' @ commas xs))"
proof -
  have "\<not> MatchString reDay (''w '' @ commas xs)" "\<not> MatchString reYear (''w '' @ commas xs)"
    unfolding MatchString_reDay MatchString_reYear by simp_all
  moreover have "MatchString reWeek (''w '' @ commas xs)"
    unfolding MatchString_reWeek using assms(2,3) by blast
  ultimately show ?thesis
    unfolding NextDate_def assms(1) assms(4) by simp
qed

text \<open>
  Claim C4. For a weekly rule \<open>w d1,...,dk\<close> with every \<open>di\<close> a digit in 1..7, a
  start that parses and any now, \<open>NextDate\<close> returns a date whose ISO weekday is one
  of the \<open>di\<close> and that is strictly after the base time (the start when it is
  strictly after the midnight of now, else that midnight): one to seven days after the
  base day, so never the base day itself.
\<close>

theorem C4_weekly:
  assumes "TrimSpace repeat = ''w '' @ commas xs" "xs \<noteq> []"
    and "\<forall>x\<in>set xs. digitString 1 x \<and> 1 \<le> decimal x \<and> decimal x \<le> 7"
    and "Parse (TrimSpace dStart) = Some startDate"
  shows "\<exists>t. NextDate now dStart repeat = Some (Inr (Format t))
     \<and> isoWeekday t \<in> decimal ` set xs
     \<and> Before (computeBaseTime (midnight now) startDate) t
     \<and> absDay (computeBaseTime (midnight now) startDate) < absDay t
     \<and> absDay t \<le> absDay (computeBaseTime (midnight now) startDate) + 7"
proof -
  define base where "base = computeBaseTime (midnight now) startDate"
  from nextWeekly_rule [OF assms(2,3), of "midnight now" startDate]
  obtain n w where r: "nextWeekly (midnight now) startDate (''w '' @ commas xs)
           = Inr (Format (plusDays base n))"
    "w \<in> decimal ` set xs" "1 \<le> n" "n \<le> 7"
    "n = w - isoWeekday base \<or> n = 7 + w - isoWeekday base"
    unfolding base_def by blast
  from r(2) assms(3) have w: "1 \<le> w" "w \<le> 7" by auto
  have "isoWeekday (plusDays base n) = w" using w r(5) by (rule isoWeekday_shift)
  moreover have "NextDate now dStart repeat = Some (Inr (Format (plusDays base n)))"
  proof -
    from assms(3) have "\<forall>x\<in>set xs. digitString 1 x" by blast
    from NextDate_weekly [OF assms(1,2) this assms(4)] show ?thesis by (simp only: r(1))
  qed
  moreover have "Before base (plusDays base n)" "absDay base < absDay (plusDays base n)"
    "absDay (plusDays base n) \<le> absDay base + 7"
    using r(3,4) by (simp_all add: Before_def plusDays_def)
  ultimately show ?thesis
    using r(2) unfolding base_def [symmetric] by (intro exI [of _ "plusDays base n"]) simp
qed

text \<open>The scenario of the specification: a Monday is not chosen again on that Monday.\<close>

lemma weekly_scenario_value:
  "NextDate (Date 2024 3 4) ''20240304'' ''w 1,3'' = Some (Inr ''20240306'')"
  by code_simp

text \<open>
  The rule \<open>w 1,3\<close> on Monday 4 March 2024 satisfies the hypotheses, with the base
  day's own weekday in the requested set.
\<close>

theorem C4_weekly_witness:
  "TrimSpace ''w 1,3'' = ''w '' @ commas [''1'', ''3''] \<and> [''1'', ''3''] \<noteq> []
   \<and> digitString 1 ''1'' \<and> decimal ''1'' = 1 \<and> digitString 1 ''3'' \<and> decimal ''3'' = 3
   \<and> Parse (TrimSpace ''20240304'') = Some (Date 2024 3 4)
   \<and> isoWeekday (Date 2024 3 4) = 1
   \<and> (\<exists>t. NextDate (Date 2024 3 4) ''20240304'' ''w 1,3'' = Some (Inr (Format t))
        \<and> isoWeekday t \<in> decimal ` set [''1'', ''3'']
        \<and> absDay (computeBaseTime (midnight (Date 2024 3 4)) (Date 2024 3 4)) < absDay t)"
proof -
  have 1: "TrimSpace ''w 1,3'' = ''w '' @ commas [''1'', ''3'']" by code_simp
  have 2: "[''1'', ''3''] \<noteq> ([] :: string list)" by simp
  have d: "digitString 1 ''1''" "decimal ''1'' = 1" "digitString 1 ''3''" "decimal ''3'' = 3"
    by code_simp+
  then have 3: "\<forall>x\<in>set [''1'', ''3'']. digitString 1 x \<and> 1 \<le> decimal x \<and> decimal x \<le> 7"
    by simp
  have 4: "Parse (TrimSpace ''20240304'') = Some (Date 2024 3 4)" by code_simp
  have 5: "isoWeekday (Date 2024 3 4) = 1" by code_simp
  from C4_weekly [OF 1 2 3 4, of "Date 2024 3 4"] 1 d 4 5 show ?thesis by blast
qed

section \<open>Monthly rules: the search\<close>

text \<open>The day of month \<open>m\<close> of year \<open>y\<close> that a day of a rule stands for.\<close>

definition resolvedDay :: "int \<Rightarrow> int \<Rightarrow> int \<Rightarrow> int" where
  "resolvedDay y m d = (if d < 0 then daysIn m y + d + 1 else d)"

text \<open>The days of month and the months a monthly rule may name.\<close>

definition dayInRange :: "int \<Rightarrow> bool" where
  "dayInRange d = (d = - 1 \<or> d = - 2 \<or> (1 \<le> d \<and> d \<le> 31))"

definition monthInRange :: "int \<Rightarrow> bool" where
  "monthInRange m = (1 \<le> m \<and> m \<le> 12)"

lemma dateToAbs_next_month:
  assumes "1 \<le> m" "m \<le> 12"
  shows "dateToAbs y (m + 1) d = dateToAbs y m (daysIn m y + d)"
proof (cases "m = 12")
  case True
  have "dateToAbs y 13 d = daysSinceEpoch (y + 1) + (d - 1)"
    by (simp add: dateToAbs_def daysBefore_simps)
  also have "\<dots> = daysSinceEpoch y + yearLen y + (d - 1)"
    by (simp add: daysSinceEpoch_step)
  also have "\<dots> = dateToAbs y 12 (daysIn 12 y + d)"
    by (simp add: dateToAbs_month yearDayOf_def daysIn_def yearLen_def daysBefore_simps)
  finally show ?thesis using True by simp
next
  case False
  with assms have m: "1 \<le> m + 1" "m + 1 \<le> 12" by simp_all
  have "m = 1 \<or> m = 2 \<or> m = 3 \<or> m = 4 \<or> m = 5 \<or> m = 6 \<or> m = 7 \<or> m = 8 \<or> m = 9 \<or> m = 10
         \<or> m = 11"
    using month_cases [OF assms] False by simp
  then show ?thesis
    unfolding dateToAbs_month [OF m] dateToAbs_month [OF assms]
    by (elim disjE) (simp_all add: yearDayOf_def daysIn_def daysBefore_simps)
qed

lemma daysIn_range: "1 \<le> m \<Longrightarrow> m \<le> 12 \<Longrightarrow> 28 \<le> daysIn m y \<and> daysIn m y \<le> 31"
  using month_cases [of m] by (auto simp: daysIn_def daysBefore_simps)

lemma Day_next_month:
  assumes "1 \<le> m" "m \<le> 12" "- daysIn m y < d" "d \<le> 0"
  shows "Day (Date y (m + 1) d) = daysIn m y + d"
proof -
  have "validDate y m (daysIn m y + d)" using assms by (simp add: validDate_def)
  from Date_fields(3) [OF this] show ?thesis
    by (simp add: Date_def dateToAbs_next_month [OF assms(1,2)])
qed

lemma computeLastMonthDay_daysIn:
  assumes "1 \<le> m" "m \<le> 12"
  shows "computeLastMonthDay y m = daysIn m y"
  using Day_next_month [OF assms, of y 0] daysIn_range [OF assms, of y]
  by (simp add: computeLastMonthDay_def)

lemma resolveDays_eq:
  assumes "1 \<le> m" "m \<le> 12" "\<forall>d\<in>set ds. - 2 \<le> d"
  shows "resolveDays ds y m = sortUniqueInts (map (resolvedDay y m) ds)"
proof -
  have "(if d < 0 then Day (Date y (m + 1) (d + 1)) else d) = resolvedDay y m d"
    if "d \<in> set ds" for d
  proof (cases "d < 0")
    case True
    with that assms(3) daysIn_range [OF assms(1,2), of y]
    have "Day (Date y (m + 1) (d + 1)) = daysIn m y + (d + 1)"
      by (intro Day_next_month [OF assms(1,2)]) auto
    with True show ?thesis by (simp add: resolvedDay_def)
  next
    case False
    then show ?thesis by (simp add: resolvedDay_def)
  qed
  then have "map (\<lambda>d. if d < 0 then Day (Date y (m + 1) (d + 1)) else d) ds
      = map (resolvedDay y m) ds" by (intro map_cong) simp_all
  then show ?thesis by (simp only: resolveDays_def)
qed

lemma dateToAbs_later_month:
  assumes "1 \<le> m" "m < m'" "m' \<le> 12" "1 \<le> d'"
  shows "dateToAbs y m (daysIn m y) < dateToAbs y m' d'"
proof -
  have "\<forall>d'. 1 \<le> d' \<longrightarrow> dateToAbs y m (daysIn m y) < dateToAbs y (m + 1 + int n) d'"
    if "m + 1 + int n \<le> 12" for n
    using that
  proof (induction n)
    case 0
    have "m \<le> 12" using 0 by simp
    from dateToAbs_next_month [OF assms(1) this, of y] show ?case
      by (simp add: dateToAbs_add_days)
  next
    case (Suc n)
    then have m: "1 \<le> m + 1 + int n" "m + 1 + int n \<le> 12" using assms(1) by simp_all
    show ?case
    proof (intro allI impI)
      fix d' :: int assume d': "1 \<le> d'"
      have "dateToAbs y (m + 1 + int (Suc n)) d'
          = dateToAbs y (m + 1 + int n) (daysIn (m + 1 + int n) y + d')"
        using dateToAbs_next_month [OF m, of y d'] by (simp add: algebra_simps)
      moreover have "1 \<le> daysIn (m + 1 + int n) y + d'"
        using daysIn_range [OF m, of y] d' by simp
      ultimately show "dateToAbs y m (daysIn m y) < dateToAbs y (m + 1 + int (Suc n)) d'"
        using Suc.IH m(2) by simp
    qed
  qed
  from this [of "nat (m' - m - 1)"] assms show ?thesis by simp
qed

lemma dateToAbs_next_year:
  assumes "validDate (Year t + 1) m d"
  shows "absDay t < dateToAbs (Year t + 1) m d"
proof -
  from assms have m: "1 \<le> m" "m \<le> 12" by (simp_all add: validDate_def)
  have "daysSinceEpoch (Year t) + yearLen (Year t) \<le> daysSinceEpoch (Year t + 1)"
    by (simp add: daysSinceEpoch_step)
  with absDay_in_year(2) [of t] yearDayOf_bounds(1) [OF assms]
  show ?thesis unfolding dateToAbs_month [OF m] by linarith
qed


lemma resolvedDay_pos:
  assumes "monthInRange m" "dayInRange d"
  shows "1 \<le> resolvedDay y m d"
  using assms daysIn_range [of m y] by (auto simp: resolvedDay_def dayInRange_def monthInRange_def)

lemma resolveDays_set:
  assumes "monthInRange m" "\<forall>d\<in>set ds. dayInRange d"
  shows "set (resolveDays ds y m) = resolvedDay y m ` set ds"
proof -
  from assms have "1 \<le> m" "m \<le> 12" "\<forall>d\<in>set ds. - 2 \<le> d"
    by (auto simp: monthInRange_def dayInRange_def)
  from resolveDays_eq [OF this] show ?thesis by (simp add: sortUniqueInts_set)
qed

lemma resolveDays_sorted:
  assumes "monthInRange m" "\<forall>d\<in>set ds. dayInRange d"
  shows "sorted (resolveDays ds y m)"
proof -
  from assms have "1 \<le> m" "m \<le> 12" "\<forall>d\<in>set ds. - 2 \<le> d"
    by (auto simp: monthInRange_def dayInRange_def)
  from resolveDays_eq [OF this] show ?thesis by (simp add: sortUniqueInts_sorted)
qed

lemma AddDate_in_month:
  assumes "dayNsec base = 0"
  shows "AddDate 0 0 (md - Day base) base = Date (Year base) (Month base) md"
proof -
  have "dateToAbs (Year base) (Month base) (Day base + (md - Day base))
      = absDay base + (md - Day base)"
    unfolding dateToAbs_add_days by (simp add: date_fields)
  then show ?thesis using assms by (simp add: AddDate_days Date_def)
qed

lemma thisYearDays_Some:
  assumes "thisYearDays base m rs = Some t" "monthInRange m" "Month base \<le> m"
    and "\<forall>r\<in>set rs. 1 \<le> r" "dayNsec base = 0"
  shows "\<exists>r\<in>set rs. r \<le> daysIn m (Year base) \<and> t = Date (Year base) m r
           \<and> absDay base < absDay t"
  using assms(1,4)
proof (induction rs)
  case Nil
  then show ?case by simp
next
  case (Cons md rest)
  from assms(2) have m: "1 \<le> m" "m \<le> 12" by (simp_all add: monthInRange_def)
  have last: "computeLastMonthDay (Year base) m = daysIn m (Year base)"
    by (rule computeLastMonthDay_daysIn [OF m])
  from Cons.prems(1) have le: "md \<le> daysIn m (Year base)"
    by (simp add: last split: if_splits)
  show ?case
  proof (cases "Month base = m")
    case True
    show ?thesis
    proof (cases "md \<le> Day base")
      case le': True
      with Cons.prems True le have "thisYearDays base m rest = Some t"
        by (simp add: last)
      with Cons.IH Cons.prems(2) show ?thesis by auto
    next
      case False
      with Cons.prems True le have "t = AddDate 0 0 (md - Day base) base"
        by (simp add: last)
      then have t: "t = Date (Year base) m md"
        using AddDate_in_month [OF assms(5), of md] True by simp
      have "absDay t = absDay base + (md - Day base)"
        using \<open>t = AddDate 0 0 (md - Day base) base\<close> by (simp add: AddDate_days)
      with False t le show ?thesis by auto
    qed
  next
    case False
    with Cons.prems le have t: "t = Date (Year base) m md" by (simp add: last)
    from False assms(3) have lt: "Month base < m" by simp
    have v: "validDate (Year base) (Month base) (Day base)" by (rule date_fields(1))
    then have "absDay base \<le> dateToAbs (Year base) (Month base) (daysIn (Month base) (Year base))"
      using dateToAbs_add_days [of "Year base" "Month base" "Day base"
          "daysIn (Month base) (Year base) - Day base"] date_fields(2) [of base]
      by (simp add: validDate_def)
    also have "\<dots> < dateToAbs (Year base) m md"
      using v lt m Cons.prems(2) by (intro dateToAbs_later_month) (simp_all add: validDate_def)
    finally show ?thesis using t le by (auto simp: Date_def)
  qed
qed

lemma thisYearMonths_Some:
  assumes "thisYearMonths base ds ms = Some t" "\<forall>m\<in>set ms. monthInRange m"
    and "\<forall>d\<in>set ds. dayInRange d" "dayNsec base = 0"
  shows "\<exists>m\<in>set ms. \<exists>d\<in>set ds. resolvedDay (Year base) m d \<le> daysIn m (Year base)
           \<and> t = Date (Year base) m (resolvedDay (Year base) m d) \<and> absDay base < absDay t"
  using assms(1,2)
proof (induction ms)
  case Nil
  then show ?case by simp
next
  case (Cons m rest)
  from Cons.prems(2) have m: "monthInRange m" by simp
  show ?case
  proof (cases "Month base \<le> m \<and>
      thisYearDays base m (resolveDays ds (Year base) m) \<noteq> None")
    case True
    with Cons.prems(1) have s: "thisYearDays base m (resolveDays ds (Year base) m) = Some t"
      by auto
    have "\<forall>r\<in>set (resolveDays ds (Year base) m). 1 \<le> r"
      using resolvedDay_pos [OF m] assms(3) by (auto simp: resolveDays_set [OF m assms(3)])
    from thisYearDays_Some [OF s m _ this assms(4)] True
    show ?thesis by (auto simp: resolveDays_set [OF m assms(3)])
  next
    case False
    with Cons.prems(1) have "thisYearMonths base ds rest = Some t"
      by (auto split: if_splits option.splits)
    with Cons.IH Cons.prems(2) show ?thesis by auto
  qed
qed

lemma nextYearDays_Some:
  assumes "nextYearDays y m rs = Some t" "monthInRange m"
  shows "\<exists>r\<in>set rs. r \<le> daysIn m y \<and> t = Date y m r"
  using assms computeLastMonthDay_daysIn [of m y]
  by (cases rs) (auto simp: monthInRange_def split: if_splits)

lemma nextYearMonths_Some:
  assumes "nextYearMonths y ds ms = Some t" "\<forall>m\<in>set ms. monthInRange m"
    and "\<forall>d\<in>set ds. dayInRange d"
  shows "\<exists>m\<in>set ms. \<exists>d\<in>set ds. resolvedDay y m d \<le> daysIn m y
           \<and> t = Date y m (resolvedDay y m d)"
  using assms(1,2)
proof (induction ms)
  case Nil
  then show ?case by simp
next
  case (Cons m rest)
  from Cons.prems(2) have m: "monthInRange m" by simp
  show ?case
  proof (cases "nextYearDays y m (resolveDays ds y m)")
    case None
    with Cons.prems(1) have "nextYearMonths y ds rest = Some t" by simp
    with Cons.IH Cons.prems(2) show ?thesis by auto
  next
    case (Some u)
    with Cons.prems(1) have "nextYearDays y m (resolveDays ds y m) = Some t" by simp
    from nextYearDays_Some [OF this m] show ?thesis
      by (auto simp: resolveDays_set [OF m assms(3)])
  qed
qed

lemma monthlySearch_Inr:
  assumes "monthlySearch base ds ms = Inr res" "\<forall>m\<in>set ms. monthInRange m"
    and "\<forall>d\<in>set ds. dayInRange d" "dayNsec base = 0"
  shows "\<exists>t. res = Format t \<and> Month t \<in> set ms
          \<and> (\<exists>d\<in>set ds. Day t = resolvedDay (Year t) (Month t) d)
          \<and> (Year t = Year base \<or> Year t = Year base + 1)
          \<and> dayNsec t = 0 \<and> absDay base < absDay t"
proof (cases "thisYearMonths base ds ms")
  case (Some t)
  from thisYearMonths_Some [OF Some assms(2,3,4)] obtain m d where md: "m \<in> set ms" "d \<in> set ds"
    "resolvedDay (Year base) m d \<le> daysIn m (Year base)"
    "t = Date (Year base) m (resolvedDay (Year base) m d)" "absDay base < absDay t" by blast
  have "validDate (Year base) m (resolvedDay (Year base) m d)"
    using md(1,2,3) assms(2,3) resolvedDay_pos [of m d "Year base"]
    by (auto simp: validDate_def monthInRange_def)
  from Date_fields [OF this] md(4)
  have f: "Year t = Year base" "Month t = m" "Day t = resolvedDay (Year base) m d" by simp_all
  have "res = Format t" using assms(1) Some by (simp add: monthlySearch_def)
  with f md show ?thesis by (intro exI [of _ t]) (auto simp: Date_def)
next
  case None
  with assms(1) obtain t where t: "nextYearMonths (Year base + 1) ds ms = Some t" "res = Format t"
    by (auto simp: monthlySearch_def split: option.splits)
  from nextYearMonths_Some [OF t(1) assms(2,3)] obtain m d where md: "m \<in> set ms" "d \<in> set ds"
    "resolvedDay (Year base + 1) m d \<le> daysIn m (Year base + 1)"
    "t = Date (Year base + 1) m (resolvedDay (Year base + 1) m d)" by blast
  have v: "validDate (Year base + 1) m (resolvedDay (Year base + 1) m d)"
    using md(1,2,3) assms(2,3) resolvedDay_pos [of m d "Year base + 1"]
    by (auto simp: validDate_def monthInRange_def)
  from Date_fields [OF this] md(4)
  have f: "Year t = Year base + 1" "Month t = m" "Day t = resolvedDay (Year base + 1) m d"
    by simp_all
  have "absDay base < absDay t"
    using dateToAbs_next_year [OF v] md(4) by (simp add: Date_def)
  with f md t(2) show ?thesis by (intro exI [of _ t]) (auto simp: Date_def)
qed


lemma thisYearDays_None:
  assumes "monthInRange m" "\<forall>r\<in>set rs. daysIn m (Year base) < r"
  shows "thisYearDays base m rs = None"
  using assms computeLastMonthDay_daysIn [of m "Year base"]
  by (cases rs) (auto simp: monthInRange_def)

lemma thisYearMonths_None:
  assumes "\<forall>m\<in>set ms. monthInRange m" "\<forall>d\<in>set ds. dayInRange d"
    and "\<forall>m\<in>set ms. Month base \<le> m \<longrightarrow>
           (\<forall>d\<in>set ds. daysIn m (Year base) < resolvedDay (Year base) m d)"
  shows "thisYearMonths base ds ms = None"
  using assms(1,3)
proof (induction ms)
  case Nil
  then show ?case by simp
next
  case (Cons m rest)
  then have m: "monthInRange m" by simp
  have "thisYearDays base m (resolveDays ds (Year base) m) = None" if "Month base \<le> m"
    using that Cons.prems(2)
    by (intro thisYearDays_None [OF m]) (auto simp: resolveDays_set [OF m assms(2)])
  with Cons show ?case by simp
qed

lemma nextYearDays_None:
  assumes "monthInRange m" "\<forall>r\<in>set rs. daysIn m y < r"
  shows "nextYearDays y m rs = None"
  using assms computeLastMonthDay_daysIn [of m y]
  by (cases rs) (auto simp: monthInRange_def)

lemma nextYearMonths_None:
  assumes "\<forall>m\<in>set ms. monthInRange m" "\<forall>d\<in>set ds. dayInRange d"
    and "\<forall>m\<in>set ms. \<forall>d\<in>set ds. daysIn m y < resolvedDay y m d"
  shows "nextYearMonths y ds ms = None"
  using assms(1,3)
proof (induction ms)
  case Nil
  then show ?case by simp
next
  case (Cons m rest)
  then have m: "monthInRange m" by simp
  have "nextYearDays y m (resolveDays ds y m) = None"
    using Cons.prems(2)
    by (intro nextYearDays_None [OF m]) (auto simp: resolveDays_set [OF m assms(2)])
  with Cons show ?case by simp
qed

lemma monthlySearch_NoMatchingDay:
  assumes "\<forall>m\<in>set ms. monthInRange m" "\<forall>d\<in>set ds. dayInRange d"
    and "\<forall>m\<in>set ms. Month base \<le> m \<longrightarrow>
           (\<forall>d\<in>set ds. daysIn m (Year base) < resolvedDay (Year base) m d)"
    and "\<forall>m\<in>set ms. \<forall>d\<in>set ds. daysIn m (Year base + 1) < resolvedDay (Year base + 1) m d"
  shows "monthlySearch base ds ms = Inl NoMatchingDay"
  using thisYearMonths_None [OF assms(1,2,3)] nextYearMonths_None [OF assms(1,2,4)]
  by (simp add: monthlySearch_def)

lemma nextYearDays_fits:
  assumes "monthInRange m" "sorted rs" "r \<in> set rs" "r \<le> daysIn m y"
  shows "nextYearDays y m rs \<noteq> None"
proof (cases rs)
  case Nil
  with assms(3) show ?thesis by simp
next
  case (Cons a as)
  with assms(2,3) have "a \<le> r" by auto
  with assms(1,4) Cons computeLastMonthDay_daysIn [of m y]
  show ?thesis by (simp add: monthInRange_def)
qed

lemma nextYearMonths_fits:
  assumes "\<forall>m\<in>set ms. monthInRange m" "\<forall>d\<in>set ds. dayInRange d"
    and "m \<in> set ms" "d \<in> set ds" "resolvedDay y m d \<le> daysIn m y"
  shows "nextYearMonths y ds ms \<noteq> None"
  using assms(1,3)
proof (induction ms)
  case Nil
  then show ?case by simp
next
  case (Cons a rest)
  show ?case
  proof (cases "a = m")
    case True
    from Cons.prems(1) True have m: "monthInRange m" by simp
    have "nextYearDays y m (resolveDays ds y m) \<noteq> None"
      using assms(4,5) resolveDays_sorted [OF m assms(2)]
      by (intro nextYearDays_fits [OF m _ _ assms(5)]) (auto simp: resolveDays_set [OF m assms(2)])
    with True show ?thesis by (auto split: option.splits)
  next
    case False
    with Cons have "nextYearMonths y ds rest \<noteq> None" by simp
    then show ?thesis by (auto split: option.splits)
  qed
qed

lemma monthlySearch_fits:
  assumes "\<forall>m\<in>set ms. monthInRange m" "\<forall>d\<in>set ds. dayInRange d"
    and "m \<in> set ms" "d \<in> set ds"
    and "resolvedDay (Year base + 1) m d \<le> daysIn m (Year base + 1)"
  shows "\<exists>res. monthlySearch base ds ms = Inr res"
  using nextYearMonths_fits [OF assms]
  by (auto simp: monthlySearch_def split: option.splits)

section \<open>Monthly rules: the rule string\<close>

text \<open>
  \<open>signedDigits\<close> holds of the strings \<open>-?\d{1,2}\<close>, and \<open>numberOf\<close> is the number
  such a string, or a string of digits, denotes.
\<close>

definition signedDigits :: "string \<Rightarrow> bool" where
  "signedDigits x =
     (digitString 2 x \<or> (x \<noteq> [] \<and> hd x = CHR ''-'' \<and> digitString 2 (tl x)))"

definition numberOf :: "string \<Rightarrow> int" where
  "numberOf x = (if x \<noteq> [] \<and> hd x = CHR ''-'' then - decimal (tl x) else decimal x)"

text \<open>A monthly rule with the day strings \<open>ds\<close> and the month strings \<open>ms\<close>.\<close>

definition monthlyRule :: "string list \<Rightarrow> string list \<Rightarrow> string" where
  "monthlyRule ds ms =
     ''m '' @ commas ds @ (if ms = [] then [] else CHR '' '' # commas ms)"

definition monthsOf :: "string list \<Rightarrow> int list" where
  "monthsOf ms = (if ms = [] then allMonths else sortUniqueInts (map decimal ms))"

lemma lang_sdig12_signedDigits: "x \<in> lang sdig12 \<longleftrightarrow> signedDigits x"
  unfolding lang_sdig12 signedDigits_def by (cases x) auto

lemma digitString_hd: "digitString n x \<Longrightarrow> x \<noteq> [] \<and> isDigit (hd x)"
  by (cases x) (auto simp: digitString_def)

lemma numberOf_digitString: "digitString n x \<Longrightarrow> numberOf x = decimal x"
  using digitString_hd [of n x] isDigit_chars(3) [of "hd x"] by (auto simp: numberOf_def)

lemma Atoi_signedDigits:
  assumes "signedDigits x"
  shows "Atoi x = Some (numberOf x)"
proof (cases "digitString 2 x")
  case True
  then show ?thesis
    using Atoi_digitString [OF digitString_mono [OF True, of 3]]
    by (simp add: numberOf_digitString)
next
  case False
  with assms obtain ds where x: "x = CHR ''-'' # ds" "digitString 2 ds"
    by (cases x) (auto simp: signedDigits_def)
  from Atoi_minus [OF digitString_mono [OF x(2), of 3]] x(1)
  show ?thesis by (simp add: numberOf_def)
qed

lemma signedDigits_no_sep:
  assumes "signedDigits x"
  shows "CHR '' '' \<notin> set x" "CHR '','' \<notin> set x"
proof -
  from assms consider "digitString 2 x" | ds where "x = CHR ''-'' # ds" "digitString 2 ds"
    by (cases x) (auto simp: signedDigits_def)
  then have "CHR '' '' \<notin> set x \<and> CHR '','' \<notin> set x"
    using digitString_no_sep by cases auto
  then show "CHR '' '' \<notin> set x" "CHR '','' \<notin> set x" by simp_all
qed

lemma weekDaysLoop_err:
  assumes "\<forall>x\<in>set xs. digitString 1 x" "\<exists>x\<in>set xs. \<not> (1 \<le> decimal x \<and> decimal x \<le> 7)"
  shows "weekDaysLoop xs acc = Inl InvalidNumericField"
  using assms by (induction xs arbitrary: acc) (auto simp: digitString1_decimal)

lemma monthDaysLoop_ok:
  assumes "\<forall>x\<in>set xs. signedDigits x \<and> dayInRange (numberOf x)"
  shows "monthDaysLoop xs acc = Inr (acc @ map numberOf xs)"
  using assms
  by (induction xs arbitrary: acc)
     (auto simp: Atoi_signedDigits dayInRange_def lastDayOfMonth_def beforeLastDayOfMonth_def)

lemma monthDaysLoop_err:
  assumes "\<forall>x\<in>set xs. signedDigits x" "\<exists>x\<in>set xs. \<not> dayInRange (numberOf x)"
  shows "monthDaysLoop xs acc = Inl InvalidNumericField"
  using assms
  by (induction xs arbitrary: acc)
     (auto simp: Atoi_signedDigits dayInRange_def lastDayOfMonth_def beforeLastDayOfMonth_def)

lemma Atoi_digitString2: "digitString 2 x \<Longrightarrow> Atoi x = Some (decimal x)"
  using Atoi_digitString [OF digitString_mono [of 2 x 3]] by simp

lemma monthsLoop_ok:
  assumes "\<forall>x\<in>set xs. digitString 2 x \<and> monthInRange (decimal x)"
  shows "monthsLoop xs acc = Inr (acc @ map decimal xs)"
  using assms
  by (induction xs arbitrary: acc) (auto simp: Atoi_digitString2 monthInRange_def)

lemma monthsLoop_err:
  assumes "\<forall>x\<in>set xs. digitString 2 x" "\<exists>x\<in>set xs. \<not> monthInRange (decimal x)"
  shows "monthsLoop xs acc = Inl InvalidNumericField"
  using assms
  by (induction xs arbitrary: acc) (auto simp: Atoi_digitString2 monthInRange_def)

lemma Split_monthlyRule:
  assumes "\<forall>x\<in>set ds. signedDigits x" "\<forall>x\<in>set ms. digitString 2 x"
  shows "Split (monthlyRule ds ms) CHR '' '' =
     (if ms = [] then [''m'', commas ds] else [''m'', commas ds, commas ms])"
proof -
  have d: "CHR '' '' \<notin> set (commas ds)"
    using assms(1) signedDigits_no_sep(1) by (intro commas_no_space) blast
  have m: "CHR '' '' \<notin> set (commas ms)"
    using assms(2) digitString_no_sep(1) by (intro commas_no_space) blast
  show ?thesis
  proof (cases "ms = []")
    case True
    have "Split (''m'' @ CHR '' '' # commas ds) CHR '' '' = [''m'', commas ds]"
      using d by (intro Split_two) simp_all
    with True show ?thesis by (simp add: monthlyRule_def)
  next
    case False
    have "Split (''m'' @ CHR '' '' # (commas ds @ CHR '' '' # commas ms)) CHR '' ''
        = ''m'' # Split (commas ds @ CHR '' '' # commas ms) CHR '' ''"
      by (intro Split_append) simp
    also have "Split (commas ds @ CHR '' '' # commas ms) CHR '' '' = [commas ds, commas ms]"
      using d m by (intro Split_two)
    finally show ?thesis using False by (simp add: monthlyRule_def)
  qed
qed

lemma nextMonthly_rule:
  assumes "ds \<noteq> []" "\<forall>x\<in>set ds. signedDigits x" "\<forall>x\<in>set ms. digitString 2 x"
  shows "nextMonthly now startDate (monthlyRule ds ms) =
     (if (\<exists>x\<in>set ds. \<not> dayInRange (numberOf x)) \<or> (\<exists>x\<in>set ms. \<not> monthInRange (decimal x))
      then Inl InvalidNumericField
      else monthlySearch (computeBaseTime now startDate) (sortUniqueInts (map numberOf ds))
             (monthsOf ms))"
proof -
  have sd: "Split (commas ds) CHR '','' = ds"
    using assms(1,2) signedDigits_no_sep(2) by (intro Split_commas) blast+
  have sm: "Split (commas ms) CHR '','' = ms" if "ms \<noteq> []"
    using that assms(3) digitString_no_sep(2) by (intro Split_commas) blast+
  note sp = Split_monthlyRule [OF assms(2,3)]
  show ?thesis
  proof (cases "\<exists>x\<in>set ds. \<not> dayInRange (numberOf x)")
    case True
    from monthDaysLoop_err [OF assms(2) True, of "[]"] show ?thesis
      using True by (simp add: nextMonthly_def sp sd Let_def)
  next
    case False
    then have "\<forall>x\<in>set ds. signedDigits x \<and> dayInRange (numberOf x)" using assms(2) by blast
    from monthDaysLoop_ok [OF this, of "[]"]
    have dl: "monthDaysLoop ds [] = Inr (map numberOf ds)" by simp
    show ?thesis
    proof (cases "ms = []")
      case True
      have spl: "Split (monthlyRule ds ms) CHR '' '' = [''m'', commas ds]"
        using sp True by simp
      show ?thesis
        unfolding nextMonthly_def Let_def spl using False True
        by (simp add: sd dl expectedPartsWithMonths_def monthsOf_def)
    next
      case ne: False
      have spl: "Split (monthlyRule ds ms) CHR '' '' = [''m'', commas ds, commas ms]"
        using sp ne by simp
      show ?thesis
      proof (cases "\<exists>x\<in>set ms. \<not> monthInRange (decimal x)")
        case True
        from monthsLoop_err [OF assms(3) True, of "[]"] show ?thesis
          unfolding nextMonthly_def Let_def spl using True ne
          by (simp add: sd sm dl expectedPartsWithMonths_def)
      next
        case F: False
        then have "\<forall>x\<in>set ms. digitString 2 x \<and> monthInRange (decimal x)"
          using assms(3) by blast
        from monthsLoop_ok [OF this, of "[]"]
        have ml: "monthsLoop ms [] = Inr (map decimal ms)" by simp
        have "sortUniqueInts (map decimal ms) \<noteq> []" using ne by (simp add: sortUniqueInts_Nil)
        then show ?thesis
          unfolding nextMonthly_def Let_def spl using False F ne
          by (simp add: sd sm dl ml expectedPartsWithMonths_def monthsOf_def)
      qed
    qed
  qed
qed

lemma NextDate_monthly:
  assumes "TrimSpace repeat = monthlyRule ds ms"
    and "ds \<noteq> []" "\<forall>x\<in>set ds. signedDigits x" "\<forall>x\<in>set ms. digitString 2 x"
    and "Parse (TrimSpace dStart) = Some startDate"
  shows "NextDate now dStart repeat
     = Some (nextMonthly (midnight now) startDate (monthlyRule ds ms))"
proof -
  have "\<not> MatchString reDay (monthlyRule ds ms)" "\<not> MatchString reYear (monthlyRule ds ms)"
    "\<not> MatchString reWeek (monthlyRule ds ms)"
    unfolding MatchString_reDay MatchString_reYear MatchString_reWeek monthlyRule_def
    by simp_all
  moreover have "MatchString reMonth (monthlyRule ds ms)"
    unfolding MatchString_reMonth monthlyRule_def lang_sdig12_signedDigits
    using assms(2,3,4) by blast
  moreover have "monthlyRule ds ms \<noteq> []" by (simp add: monthlyRule_def)
  ultimately show ?thesis
    unfolding NextDate_def assms(1) assms(5) by simp
qed

section \<open>The scenario of a three-day rule\<close>

lemma daily_scenario_value:
  "NextDate \<lparr>absDay = dateToAbs 2024 3 5, dayNsec = n\<rparr> ''20240301'' ''d 3''
     = Some (Inr ''20240307'')"
  by code_simp

text \<open>
  Claim C2, as amended. For the rule \<open>d 3\<close>, the start 20240301 and any instant of
  5 March 2024 as now, \<open>NextDate\<close> returns 20240307: the candidates are 4 March, which
  is not after now, and then 7 March.
\<close>

theorem C2_daily_scenario:
  "NextDate \<lparr>absDay = dateToAbs 2024 3 5, dayNsec = n\<rparr> ''20240301'' ''d 3''
     = Some (Inr ''20240307'')"
  by (rule daily_scenario_value)

text \<open>The date the claim names, 20240306, is not what the call returns.\<close>

theorem C2_counterexample:
  "NextDate \<lparr>absDay = dateToAbs 2024 3 5, dayNsec = 0\<rparr> ''20240301'' ''d 3''
     \<noteq> Some (Inr ''20240306'')"
  using daily_scenario_value [of 0] by simp

end
